theory Spec2Isabelle
  imports Main
begin

section \<open>Strings and the path library used by the snapshot resolver\<close>

text \<open>
  The two resolver functions of \<open>typescript.ts\<close> (lines 317-330) are built from
  \<open>String.prototype.replace\<close> and the functions \<open>dirname\<close>, \<open>basename\<close> and \<open>join\<close>
  of the \<open>path\<close> module of Node.js; the constructor also calls
  \<open>String.prototype.startsWith\<close> (line 209).  These belong to the runtime, not to the
  repository, and are written here after their algorithms: the loops of \<open>dirname\<close>
  and \<open>basename\<close> as recursive functions over the characters they scan, \<open>normalize\<close>
  segment by segment.  The path functions are the POSIX ones (\<open>path.posix\<close>).  A
  string is a list of characters; the code only ever compares characters with each
  other and with \<open>/\<close>, \<open>.\<close> and \<open>$\<close>.
\<close>

subsection \<open>String.prototype.startsWith and String.prototype.replace\<close>

fun startsWith :: "string \<Rightarrow> string \<Rightarrow> bool" where
  "startsWith s p = (take (length p) s = p)"

text \<open>
  \<open>splitAtFirst pat s\<close> finds the leftmost occurrence of \<open>pat\<close> in \<open>s\<close> (the index
  that \<open>indexOf\<close> returns) and gives the text before it and the text after it;
  \<open>None\<close> is the index \<open>-1\<close>.
\<close>

fun splitAtFirst :: "string \<Rightarrow> string \<Rightarrow> (string \<times> string) option" where
  "splitAtFirst pat [] = (if pat = [] then Some ([], []) else None)"
| "splitAtFirst pat (c # cs) =
     (if startsWith (c # cs) pat then Some ([], drop (length pat) (c # cs))
      else map_option (\<lambda>(b, a). (c # b, a)) (splitAtFirst pat cs))"

text \<open>
  The replacement text of \<open>replace\<close> is a template: with a string pattern there are no
  capture groups, so \<open>$$\<close> stands for a dollar sign, \<open>$&\<close> for the matched text,
  \<open>$`\<close> for the text before the match and \<open>$'\<close> for the text after it; every other
  character, and a dollar sign followed by anything else, stands for itself.
\<close>

fun getSubstitution :: "string \<Rightarrow> string \<Rightarrow> string \<Rightarrow> string \<Rightarrow> string" where
  "getSubstitution matched preceding following [] = []"
| "getSubstitution matched preceding following [c] = [c]"
| "getSubstitution matched preceding following (c # d # rest) =
     (if c = CHR ''$'' then
        (if d = CHR ''$'' then CHR ''$'' # getSubstitution matched preceding following rest
         else if d = CHR ''&'' then matched @ getSubstitution matched preceding following rest
         else if d = CHR 0x60 then preceding @ getSubstitution matched preceding following rest
         else if d = CHR 0x27 then following @ getSubstitution matched preceding following rest
         else c # getSubstitution matched preceding following (d # rest))
      else c # getSubstitution matched preceding following (d # rest))"

text \<open>\<open>s.replace(pat, repl)\<close> with a string pattern: only the first occurrence is
  replaced, and a string without the pattern is returned as it is.\<close>

definition String_replace :: "string \<Rightarrow> string \<Rightarrow> string \<Rightarrow> string" where
  "String_replace s pat repl =
     (case splitAtFirst pat s of
        None \<Rightarrow> s
      | Some (preceding, following) \<Rightarrow>
          preceding @ getSubstitution pat preceding following repl @ following)"

subsection \<open>path.posix.dirname\<close>

text \<open>
  The loop of \<open>dirname\<close> runs over the indices \<open>length - 1\<close> down to \<open>1\<close>: it skips
  the trailing slashes, then the last component, and stops at the slash before it.
  The argument is the text still to scan, reversed, so the index of its first
  character is the number of characters behind it plus one; the result is \<open>end\<close>,
  with \<open>None\<close> for \<open>-1\<close>.
\<close>

fun dirname_loop :: "string \<Rightarrow> bool \<Rightarrow> nat option" where
  "dirname_loop [] matchedSlash = None"
| "dirname_loop (c # rs) matchedSlash =
     (if c = CHR ''/'' then
        (if \<not> matchedSlash then Some (Suc (length rs)) else dirname_loop rs matchedSlash)
      else dirname_loop rs False)"

definition posix_dirname :: "string \<Rightarrow> string" where
  "posix_dirname path =
     (if path = [] then ''.''
      else
        (let hasRoot = (hd path = CHR ''/'') in
         case dirname_loop (rev (tl path)) True of
           None \<Rightarrow> (if hasRoot then ''/'' else ''.'')
         | Some e \<Rightarrow> (if hasRoot \<and> e = 1 then ''//'' else take e path)))"

subsection \<open>path.posix.basename\<close>

text \<open>\<open>path.slice(start, end)\<close> for indices within the string; an \<open>end\<close> of \<open>-1\<close>
  (\<open>None\<close>) counts from the end of the string.\<close>

definition slice :: "string \<Rightarrow> nat \<Rightarrow> nat option \<Rightarrow> string" where
  "slice s start e =
     (case e of
        Some n \<Rightarrow> take (n - start) (drop start s)
      | None \<Rightarrow> take (length s - 1 - start) (drop start s))"

text \<open>
  The loop of \<open>basename\<close> when a suffix is given.  It runs over the indices
  \<open>length - 1\<close> down to \<open>0\<close>; the first argument is the text still to scan, reversed, so
  its first character has the index \<open>length rs\<close>.  \<open>ex\<close> is the part of the suffix
  still to match, reversed: its first character is \<open>ext[extIdx]\<close>, and the empty list
  is \<open>extIdx = -1\<close>.  The result is \<open>(start, end, firstNonSlashEnd)\<close>.
\<close>

fun basename_loop ::
  "string \<Rightarrow> string \<Rightarrow> nat option \<Rightarrow> nat option \<Rightarrow> bool \<Rightarrow> nat \<times> nat option \<times> nat option" where
  "basename_loop [] ex e fne matchedSlash = (0, e, fne)"
| "basename_loop (c # rs) ex e fne matchedSlash =
     (if c = CHR ''/'' then
        (if \<not> matchedSlash then (Suc (length rs), e, fne)
         else basename_loop rs ex e fne matchedSlash)
      else
        (let first = (fne = None);
             fne' = (if first then Some (Suc (length rs)) else fne);
             matchedSlash' = (if first then False else matchedSlash)
         in case ex of
              [] \<Rightarrow> basename_loop rs [] e fne' matchedSlash'
            | x # xs \<Rightarrow>
                (if c = x then
                   (if xs = [] then basename_loop rs [] (Some (length rs)) fne' matchedSlash'
                    else basename_loop rs xs e fne' matchedSlash')
                 else basename_loop rs [] fne' fne' matchedSlash')))"

text \<open>The loop of \<open>basename\<close> when no suffix applies; the result is \<open>(start, end)\<close>.\<close>

fun basename_loop0 :: "string \<Rightarrow> nat option \<Rightarrow> bool \<Rightarrow> nat \<times> nat option" where
  "basename_loop0 [] e matchedSlash = (0, e)"
| "basename_loop0 (c # rs) e matchedSlash =
     (if c = CHR ''/'' then
        (if \<not> matchedSlash then (Suc (length rs), e)
         else basename_loop0 rs e matchedSlash)
      else if e = None then basename_loop0 rs (Some (Suc (length rs))) False
      else basename_loop0 rs e matchedSlash)"

definition posix_basename :: "string \<Rightarrow> string \<Rightarrow> string" where
  "posix_basename path ext =
     (if ext \<noteq> [] \<and> length ext \<le> length path then
        (if ext = path then []
         else
           (case basename_loop (rev path) (rev ext) None None True of
              (start, e, fne) \<Rightarrow>
                slice path start
                  (if Some start = e then fne
                   else if e = None then Some (length path)
                   else e)))
      else
        (case basename_loop0 (rev path) None True of
           (start, e) \<Rightarrow> (if e = None then [] else slice path start e)))"

subsection \<open>path.posix.normalize and path.posix.join\<close>

text \<open>\<open>split_sep\<close> cuts a path at every slash and \<open>join_sep\<close> puts the pieces
  together again with one slash between two of them.\<close>

fun split_sep :: "string \<Rightarrow> string list" where
  "split_sep [] = [[]]"
| "split_sep (c # cs) =
     (if c = CHR ''/'' then [] # split_sep cs
      else (case split_sep cs of
              [] \<Rightarrow> [[c]]
            | s # ss \<Rightarrow> (c # s) # ss))"

fun join_sep :: "string list \<Rightarrow> string" where
  "join_sep [] = []"
| "join_sep [s] = s"
| "join_sep (s # t # ts) = s @ CHR ''/'' # join_sep (t # ts)"

text \<open>
  \<open>normalizeString\<close> walks through the path one segment at a time and keeps the
  segments of the result: an empty segment and \<open>.\<close> are dropped; \<open>..\<close> removes the
  segment before it, unless there is none or it is \<open>..\<close> itself, in which case \<open>..\<close>
  is kept when the path is relative (\<open>allowAboveRoot\<close>) and dropped when it is
  absolute; every other segment is kept.
\<close>

fun normalize_step :: "bool \<Rightarrow> string list \<Rightarrow> string \<Rightarrow> string list" where
  "normalize_step allowAboveRoot res seg =
     (if seg = [] \<or> seg = ''.'' then res
      else if seg = ''..'' then
        (if res \<noteq> [] \<and> last res \<noteq> ''..'' then butlast res
         else if allowAboveRoot then res @ [''..'']
         else res)
      else res @ [seg])"

definition normalizeString :: "string \<Rightarrow> bool \<Rightarrow> string" where
  "normalizeString path allowAboveRoot =
     join_sep (foldl (normalize_step allowAboveRoot) [] (split_sep path))"

definition posix_normalize :: "string \<Rightarrow> string" where
  "posix_normalize path =
     (if path = [] then ''.''
      else
        (let isAbsolute = (hd path = CHR ''/'');
             trailingSeparator = (last path = CHR ''/'');
             p = normalizeString path (\<not> isAbsolute)
         in if p = [] then
              (if isAbsolute then ''/'' else if trailingSeparator then ''./'' else ''.'')
            else
              (let p' = (if trailingSeparator then p @ ''/'' else p)
               in if isAbsolute then CHR ''/'' # p' else p')))"

definition posix_join :: "string list \<Rightarrow> string" where
  "posix_join args =
     (let parts = filter (\<lambda>arg. arg \<noteq> []) args
      in if parts = [] then ''.'' else posix_normalize (join_sep parts))"

section \<open>The snapshot resolver\<close>

text \<open>
  \<open>resolveSnapshotPath\<close> and \<open>resolveTestPath\<close> close over the constants \<open>libtest\<close>
  and \<open>srctest\<close>; here they are the first two arguments.  Neither function has a
  \<open>throw\<close>, and the library functions they call only throw on an argument that is
  not a string, so both return on every input: the result is \<open>Inr\<close> of the path.
\<close>

datatype error = MalformedPathError

definition resolveSnapshotPath :: "string \<Rightarrow> string \<Rightarrow> string \<Rightarrow> string \<Rightarrow> error + string" where
  "resolveSnapshotPath libtest srctest test ext =
     (let fullpath = String_replace test libtest srctest
      in Inr (posix_join
                [posix_dirname fullpath,
                 ''__snapshots__'',
                 posix_basename fullpath ''.js'' @ ''.ts'' @ ext]))"

definition resolveTestPath :: "string \<Rightarrow> string \<Rightarrow> string \<Rightarrow> string \<Rightarrow> error + string" where
  "resolveTestPath libtest srctest snap ext =
     (let filename = posix_basename snap (''.ts'' @ ext) @ ''.js'';
          dir = String_replace (posix_dirname (posix_dirname snap)) srctest libtest
      in Inr (posix_join [dir, filename]))"

text \<open>The composition \<open>toTestPath(toSnapshotPath(p, ext), ext)\<close>; a failure of the
  first call would be the failure of the whole.\<close>

definition roundTrip :: "string \<Rightarrow> string \<Rightarrow> string \<Rightarrow> string \<Rightarrow> error + string" where
  "roundTrip libtest srctest p ext =
     (case resolveSnapshotPath libtest srctest p ext of
        Inl e \<Rightarrow> Inl e
      | Inr snap \<Rightarrow> resolveTestPath libtest srctest snap ext)"


subsection \<open>Paths in normal form\<close>

text \<open>
  A segment is clean when it is not empty, is neither \<open>.\<close> nor \<open>..\<close> and holds no
  slash; a path is clean when it is one or more clean segments with one slash between
  two of them, after an optional leading slash.  These are the paths that
  \<open>normalize\<close> leaves as they are and that do not end in a slash.
\<close>

definition clean_seg :: "string \<Rightarrow> bool" where
  "clean_seg s = (s \<noteq> [] \<and> s \<noteq> ''.'' \<and> s \<noteq> ''..'' \<and> CHR ''/'' \<notin> set s)"

definition clean_rel :: "string \<Rightarrow> bool" where
  "clean_rel p = list_all clean_seg (split_sep p)"

definition clean_path :: "string \<Rightarrow> bool" where
  "clean_path p =
     (case p of
        [] \<Rightarrow> False
      | c # cs \<Rightarrow> if c = CHR ''/'' then clean_rel cs else clean_rel p)"

section \<open>Merging tsconfig options\<close>

text \<open>
  The values of compiler options are JSON-like; \<open>mergeTsconfigOptions\<close> never looks
  inside one.
\<close>

datatype jsvalue =
    JUndefined
  | JBool bool
  | JNum int
  | JStr string
  | JArr "jsvalue list"
  | JObj "(string \<times> jsvalue) list"

text \<open>
  \<open>TypescriptConfigOptions\<close> has the optional fields \<open>fileName\<close>, \<open>include\<close> and
  \<open>exclude\<close> and the field \<open>compilerOptions\<close>, an object read as a map from option
  names to values.  An object spread copies a property that is present with the value
  \<open>undefined\<close>, so for \<open>fileName\<close> the model keeps apart the missing property
  (\<open>None\<close>), the property holding \<open>undefined\<close> (\<open>Some None\<close>) and the property
  holding a string.  For \<open>include\<close> and \<open>exclude\<close> the code reads both a missing
  property and \<open>undefined\<close> through \<open>?? []\<close>, and \<open>None\<close> stands for either.
\<close>

record TypescriptConfigOptions =
  fileName :: "string option option"
  include' :: "string list option"
  exclude :: "string list option"
  compilerOptions :: "string \<Rightarrow> jsvalue option"

text \<open>The operator \<open>??\<close>: the left operand unless it is \<open>undefined\<close>.\<close>

definition coalesce :: "'a option \<Rightarrow> 'a \<Rightarrow> 'a" where
  "coalesce x d = (case x of None \<Rightarrow> d | Some v \<Rightarrow> v)"

text \<open>The callback of \<open>reduce\<close> (lines 505-514): both operands are spread into a new
  object, then \<open>include\<close>, \<open>exclude\<close> and \<open>compilerOptions\<close> are set.\<close>

definition reducer ::
  "TypescriptConfigOptions \<Rightarrow> TypescriptConfigOptions \<Rightarrow> TypescriptConfigOptions" where
  "reducer previous current =
     \<lparr> fileName = (case fileName current of None \<Rightarrow> fileName previous | Some v \<Rightarrow> Some v),
       include' = Some (coalesce (include' previous) [] @ coalesce (include' current) []),
       exclude = Some (coalesce (exclude previous) [] @ coalesce (exclude current) []),
       compilerOptions = compilerOptions previous ++ compilerOptions current \<rparr>"

text \<open>The initial value of \<open>reduce\<close>, \<open>{ compilerOptions: {} }\<close>.\<close>

definition initialValue :: TypescriptConfigOptions where
  "initialValue =
     \<lparr> fileName = None, include' = None, exclude = None, compilerOptions = Map.empty \<rparr>"

definition mergeTsconfigOptions ::
  "TypescriptConfigOptions option list \<Rightarrow> TypescriptConfigOptions" where
  "mergeTsconfigOptions options =
     (let definedOptions = List.map_filter (\<lambda>x. x) options
      in foldl reducer initialValue definedOptions)"

section \<open>Merging on a heap of objects\<close>

text \<open>
  Whether \<open>mergeTsconfigOptions\<close> changes its arguments is a question about objects,
  not values.  Here a heap is the list of the objects allocated so far and an address
  is an index into it.  A fragment object holds its \<open>fileName\<close> and the addresses of
  its \<open>include\<close> array, its \<open>exclude\<close> array and its \<open>compilerOptions\<close> object.  An
  array literal and an object literal each allocate a new object.
\<close>

type_synonym addr = nat

datatype obj =
    Array "string list"
  | Options "string \<Rightarrow> jsvalue option"
  | Fragment "string option option" "addr option" "addr option" addr

type_synonym heap = "obj list"

definition alloc :: "heap \<Rightarrow> obj \<Rightarrow> addr \<times> heap" where
  "alloc h ob = (length h, h @ [ob])"

definition lookup :: "heap \<Rightarrow> addr \<Rightarrow> obj option" where
  "lookup h p = (if p < length h then Some (h ! p) else None)"

text \<open>The elements of the array at an address, as \<open>...(x ?? [])\<close> reads them.\<close>

definition arrayAt :: "heap \<Rightarrow> addr option \<Rightarrow> string list" where
  "arrayAt h a =
     (case a of
        None \<Rightarrow> []
      | Some p \<Rightarrow> (case lookup h p of Some (Array xs) \<Rightarrow> xs | _ \<Rightarrow> []))"

text \<open>The properties of the object at an address, as a spread reads them.\<close>

definition optionsAt :: "heap \<Rightarrow> addr \<Rightarrow> string \<Rightarrow> jsvalue option" where
  "optionsAt h p = (case lookup h p of Some (Options m) \<Rightarrow> m | _ \<Rightarrow> Map.empty)"

text \<open>
  The callback of \<open>reduce\<close> on the heap: it reads its two operands and allocates the
  new \<open>include\<close> array, the new \<open>exclude\<close> array, the new \<open>compilerOptions\<close> object
  and the new fragment; it writes to no other object.  The result is \<open>None\<close> when an
  operand is not the address of a fragment, which no typed caller passes.
\<close>

definition reducerH :: "heap \<Rightarrow> addr \<Rightarrow> addr \<Rightarrow> (addr \<times> heap) option" where
  "reducerH h previous current =
     (case (lookup h previous, lookup h current) of
        (Some (Fragment pf pi pe pc), Some (Fragment cf ci ce cc)) \<Rightarrow>
          (case alloc h (Array (arrayAt h pi @ arrayAt h ci)) of
             (inc, h1) \<Rightarrow>
               (case alloc h1 (Array (arrayAt h1 pe @ arrayAt h1 ce)) of
                  (exc, h2) \<Rightarrow>
                    (case alloc h2 (Options (optionsAt h2 pc ++ optionsAt h2 cc)) of
                       (co, h3) \<Rightarrow>
                         Some (alloc h3
                           (Fragment (case cf of None \<Rightarrow> pf | Some v \<Rightarrow> Some v)
                              (Some inc) (Some exc) co)))))
      | _ \<Rightarrow> None)"

fun reduceH :: "heap \<Rightarrow> addr \<Rightarrow> addr list \<Rightarrow> (addr \<times> heap) option" where
  "reduceH h acc [] = Some (acc, h)"
| "reduceH h acc (current # rest) =
     (case reducerH h acc current of
        None \<Rightarrow> None
      | Some (acc', h') \<Rightarrow> reduceH h' acc' rest)"

text \<open>\<open>mergeTsconfigOptions\<close> on the heap: the initial value is a new fragment with a
  new, empty \<open>compilerOptions\<close> object.\<close>

definition mergeTsconfigOptionsH :: "heap \<Rightarrow> addr option list \<Rightarrow> (addr \<times> heap) option" where
  "mergeTsconfigOptionsH h options =
     (let definedOptions = List.map_filter (\<lambda>x. x) options
      in case alloc h (Options Map.empty) of
           (co, h1) \<Rightarrow>
             (case alloc h1 (Fragment None None None co) of
                (seed, h2) \<Rightarrow> reduceH h2 seed definedOptions))"

text \<open>The fragment an address stands for: the value of the object together with the
  values of the arrays and of the options object it points to.\<close>

definition fragmentAt :: "heap \<Rightarrow> addr \<Rightarrow> TypescriptConfigOptions option" where
  "fragmentAt h a =
     (case lookup h a of
        Some (Fragment f i e c) \<Rightarrow>
          Some \<lparr> fileName = f,
                 include' = map_option (\<lambda>p. arrayAt h (Some p)) i,
                 exclude = map_option (\<lambda>p. arrayAt h (Some p)) e,
                 compilerOptions = optionsAt h c \<rparr>
      | _ \<Rightarrow> None)"

text \<open>A well-formed fragment: an allocated fragment object whose addresses are those
  of allocated objects of the right kind.\<close>

definition isArray :: "heap \<Rightarrow> addr \<Rightarrow> bool" where
  "isArray h p = (case lookup h p of Some (Array xs) \<Rightarrow> True | _ \<Rightarrow> False)"

definition isOptions :: "heap \<Rightarrow> addr \<Rightarrow> bool" where
  "isOptions h p = (case lookup h p of Some (Options m) \<Rightarrow> True | _ \<Rightarrow> False)"

definition wfFragment :: "heap \<Rightarrow> addr \<Rightarrow> bool" where
  "wfFragment h a =
     (case lookup h a of
        Some (Fragment f i e c) \<Rightarrow>
          (case i of None \<Rightarrow> True | Some p \<Rightarrow> isArray h p) \<and>
          (case e of None \<Rightarrow> True | Some p \<Rightarrow> isArray h p) \<and>
          isOptions h c
      | _ \<Rightarrow> False)"

definition wfRef :: "heap \<Rightarrow> addr option \<Rightarrow> bool" where
  "wfRef h r = (case r of None \<Rightarrow> True | Some a \<Rightarrow> wfFragment h a)"

section \<open>Tasks and the task segments of the constructor of TypeScriptProject\<close>

datatype TaskStep = Exec string | Spawn string

record Task =
  name :: string
  steps :: "TaskStep list"

text \<open>
  The class \<open>Task\<close> is in \<open>./tasks\<close>, which is not among the sources; the constructor
  calls its methods \<open>exec\<close>, \<open>spawn\<close> and \<open>prependExec\<close>.  By the specification, the
  steps of a task are an ordered sequence of shell commands and of references to other
  tasks (spawns), run in the order of the list, and a step is appended or prepended.
\<close>

text \<open>Modelled from the spec: \<open>Task.exec\<close> (in \<open>./tasks\<close>, not among the sources)
  appends a shell command to the steps.\<close>

definition Task_exec :: "Task \<Rightarrow> string \<Rightarrow> Task" where
  "Task_exec t command = t\<lparr>steps := steps t @ [Exec command]\<rparr>"

text \<open>Modelled from the spec: \<open>Task.spawn\<close> (in \<open>./tasks\<close>, not among the sources)
  appends a reference to the other task, by its name.\<close>

definition Task_spawn :: "Task \<Rightarrow> Task \<Rightarrow> Task" where
  "Task_spawn t subtask = t\<lparr>steps := steps t @ [Spawn (name subtask)]\<rparr>"

text \<open>Modelled from the spec: \<open>Task.prependExec\<close> (in \<open>./tasks\<close>, not among the
  sources) puts a shell command before every step the task already has.\<close>

definition Task_prependExec :: "Task \<Rightarrow> string \<Rightarrow> Task" where
  "Task_prependExec t command = t\<lparr>steps := Exec command # steps t\<rparr>"

text \<open>
  The constructor of \<open>TypeScriptProject\<close> is a long sequence of calls, many of them
  into classes that are not among the sources (\<open>TypescriptConfig\<close>, \<open>Jest\<close>,
  \<open>Eslint\<close>, \<open>TypedocDocgen\<close>, \<open>Projenrc\<close> and others).  What follows is not the
  whole constructor.  It is the segments of it that order the steps of the build task
  (lines 214-234) and that put the cleanup into the test task (lines 352-383), each as
  a function from the state of the project when control reaches the first line of
  the segment to its state after the last line.  Nothing is said about the segments in
  between and after: a component constructed later (\<open>new Eslint(this, ...)\<close> at line
  386, \<open>new TypedocDocgen(this)\<close> at line 426) may add steps of its own to a task.
\<close>

text \<open>The options these segments read.\<close>

record TypeScriptProjectOptions =
  libdir :: "string option"
  srcdir :: "string option"
  testdir :: "string option"
  compileBeforeTest :: "bool option"
  package :: "bool option"

text \<open>
  The state of the project at a point of the constructor, as far as these segments read
  or write it: the tasks inherited from the node project, the task \<open>package\<close> once it
  is there, whether jest is set up (\<open>this.jest\<close> is defined) and the package manager
  (\<open>this.package.packageManager\<close>).
\<close>

record Project =
  compileTask :: Task
  testTask :: Task
  buildTask :: Task
  testCompileTask :: Task
  packageTask :: "Task option"
  jest :: bool
  packageManager :: string

definition posix_sep :: string where
  "posix_sep = ''/''"

text \<open>Lines 189, 190 and 203: the directories, with their defaults.\<close>

definition srcdir_of :: "TypeScriptProjectOptions \<Rightarrow> string" where
  "srcdir_of options = coalesce (srcdir options) ''src''"

definition libdir_of :: "TypeScriptProjectOptions \<Rightarrow> string" where
  "libdir_of options = coalesce (libdir options) ''lib''"

definition testdir_of :: "TypeScriptProjectOptions \<Rightarrow> string" where
  "testdir_of options = coalesce (testdir options) ''test''"

text \<open>Line 209: \<open>compiledTests\<close>.\<close>

definition compiledTests :: "TypeScriptProjectOptions \<Rightarrow> bool" where
  "compiledTests options = startsWith (testdir_of options) (srcdir_of options @ posix_sep)"

text \<open>Line 212: the local \<open>compileBeforeTest\<close>.\<close>

definition compileBeforeTest_of :: "TypeScriptProjectOptions \<Rightarrow> bool" where
  "compileBeforeTest_of options = coalesce (compileBeforeTest options) (compiledTests options)"

text \<open>Line 222: \<open>options.package ?? true\<close>.\<close>

definition package_of :: "TypeScriptProjectOptions \<Rightarrow> bool" where
  "package_of options = coalesce (package options) True"

text \<open>Lines 214-220: the two spawns of the build task, in the order of the policy.\<close>

definition lines_214_220 :: "TypeScriptProjectOptions \<Rightarrow> Project \<Rightarrow> Project" where
  "lines_214_220 options this =
     (if compileBeforeTest_of options then
        this\<lparr>buildTask :=
          Task_spawn (Task_spawn (buildTask this) (compileTask this)) (testTask this)\<rparr>
      else
        this\<lparr>buildTask :=
          Task_spawn (Task_spawn (buildTask this) (testTask this)) (compileTask this)\<rparr>)"

text \<open>Lines 223-231: the task \<open>package\<close> and its four commands.\<close>

definition newPackageTask :: "string \<Rightarrow> Task" where
  "newPackageTask manager =
     Task_exec
       (Task_exec
          (Task_exec
             (Task_exec \<lparr>name = ''package'', steps = []\<rparr> ''rm -fr dist'')
             ''mkdir -p dist/js'')
          (manager @ '' pack''))
       ''mv *.tgz dist/js/''"

text \<open>Lines 222-234: when packaging is on, the task \<open>package\<close> is added and the
  build task spawns it.\<close>

definition lines_222_234 :: "TypeScriptProjectOptions \<Rightarrow> Project \<Rightarrow> Project" where
  "lines_222_234 options this =
     (if package_of options then
        (let packageTask' = newPackageTask (packageManager this)
         in this\<lparr>packageTask := Some packageTask',
                 buildTask := Task_spawn (buildTask this) packageTask'\<rparr>)
      else this)"

text \<open>Lines 214-234, which follow one another with nothing in between.\<close>

definition lines_214_234 :: "TypeScriptProjectOptions \<Rightarrow> Project \<Rightarrow> Project" where
  "lines_214_234 options this = lines_222_234 options (lines_214_220 options this)"

text \<open>
  Lines 375-382, inside the block of line 352: the cleanup is put in front of the steps
  of the test task when the tests run before the compilation, then the task that
  compiles the tests gets its command.  \<open>tsconfigFileName\<close> is \<open>tsconfig.fileName\<close>.
\<close>

definition lines_375_382 :: "TypeScriptProjectOptions \<Rightarrow> string \<Rightarrow> Project \<Rightarrow> Project" where
  "lines_375_382 options tsconfigFileName this =
     (let this1 =
            (if \<not> compileBeforeTest_of options then
               this\<lparr>testTask :=
                 Task_prependExec (testTask this) (''rm -fr '' @ libdir_of options @ ''/'')\<rparr>
             else this)
      in this1\<lparr>testCompileTask :=
           Task_exec (testCompileTask this1) (''tsc --noEmit --project '' @ tsconfigFileName)\<rparr>)"

text \<open>
  Lines 352-383: the block runs when jest is set up and the tests are not compiled.
  Its lines 353-371 call \<open>addTestMatch\<close> and \<open>generateTypescriptConfig\<close> of
  \<open>this.jest\<close>, whose class is not among the sources: what they do to the project and
  the file name of the configuration they return is the parameter \<open>jestCalls\<close>.
\<close>

definition lines_352_383 ::
  "TypeScriptProjectOptions \<Rightarrow> (Project \<Rightarrow> Project \<times> string) \<Rightarrow> Project \<Rightarrow> Project" where
  "lines_352_383 options jestCalls this =
     (if jest this \<and> \<not> compiledTests options then
        (case jestCalls this of
           (this1, tsconfigFileName) \<Rightarrow> lines_375_382 options tsconfigFileName this1)
      else this)"

section \<open>Properties of the path functions\<close>

lemma startsWith_append:
  "startsWith s p \<Longrightarrow> startsWith (s @ r) p"
proof -
  assume "startsWith s p"
  then have eq: "take (length p) s = p" by simp
  then have "min (length s) (length p) = length p"
    by (metis length_take)
  then have "length p \<le> length s" by linarith
  then have "take (length p) (s @ r) = take (length p) s" by simp
  with eq show ?thesis by simp
qed

lemma startsWith_shorter:
  "startsWith (s @ r) p \<Longrightarrow> length p \<le> length s \<Longrightarrow> startsWith s p"
proof -
  assume "startsWith (s @ r) p" and len: "length p \<le> length s"
  then have "take (length p) (s @ r) = p" by simp
  moreover from len have "take (length p) (s @ r) = take (length p) s" by simp
  ultimately show ?thesis by simp
qed

lemma startsWith_split:
  "startsWith s p \<Longrightarrow> s = p @ drop (length p) s"
proof -
  assume "startsWith s p"
  then have "take (length p) s = p" by simp
  then show ?thesis by (metis append_take_drop_id)
qed

lemma splitAtFirst_sound:
  "splitAtFirst pat s = Some (b, a) \<Longrightarrow> s = b @ pat @ a"
proof (induction s arbitrary: b)
  case Nil
  then show ?case by (simp split: if_splits)
next
  case (Cons c cs)
  show ?case
  proof (cases "startsWith (c # cs) pat")
    case True
    with Cons.prems have "b = []" and "a = drop (length pat) (c # cs)"
      by (simp_all del: startsWith.simps)
    with startsWith_split[OF True] show ?thesis by simp
  next
    case False
    with Cons.prems obtain b' where "splitAtFirst pat cs = Some (b', a)" and "b = c # b'"
      by (auto simp del: startsWith.simps split: prod.splits)
    with Cons.IH show ?thesis by simp
  qed
qed

lemma splitAtFirst_append:
  "splitAtFirst pat d = Some (b, a) \<Longrightarrow> splitAtFirst pat (d @ r) = Some (b, a @ r)"
proof (induction d arbitrary: b)
  case Nil
  then have "pat = []" and "b = []" and "a = []" by (simp_all split: if_splits)
  then show ?case by (cases r) simp_all
next
  case (Cons c cs)
  show ?case
  proof (cases "startsWith (c # cs) pat")
    case True
    from startsWith_split[OF True] have len: "length pat \<le> length (c # cs)"
      by (metis length_append le_add1)
    from True have st: "startsWith (c # cs @ r) pat"
      using startsWith_append[of "c # cs" pat r] by simp
    from True Cons.prems have "b = []" and "a = drop (length pat) (c # cs)"
      by (simp_all del: startsWith.simps)
    moreover have "splitAtFirst pat (c # cs @ r) = Some ([], drop (length pat) (c # cs @ r))"
      using st by (simp del: startsWith.simps)
    moreover have "drop (length pat) (c # cs @ r) = drop (length pat) (c # cs) @ r"
      using len by (metis append_Cons drop_append diff_is_0_eq drop0)
    ultimately show ?thesis by simp
  next
    case False
    with Cons.prems obtain b' where sp: "splitAtFirst pat cs = Some (b', a)" and b: "b = c # b'"
      by (auto simp del: startsWith.simps split: prod.splits)
    have "\<not> startsWith (c # cs @ r) pat"
    proof
      assume st: "startsWith (c # cs @ r) pat"
      from sp have "cs = b' @ pat @ a" by (rule splitAtFirst_sound)
      then have "length cs = length b' + length pat + length a" by simp
      then have "length pat \<le> length (c # cs)" by simp
      with st have "startsWith (c # cs) pat"
        using startsWith_shorter[of "c # cs" r pat] by simp
      with False show False by simp
    qed
    then have "splitAtFirst pat (c # cs @ r) =
        map_option (\<lambda>(b, a). (c # b, a)) (splitAtFirst pat (cs @ r))"
      by (simp del: startsWith.simps)
    with Cons.IH[OF sp] b show ?thesis by simp
  qed
qed

lemma getSubstitution_plain:
  "CHR ''$'' \<notin> set r \<Longrightarrow> getSubstitution m b a r = r"
  by (induction m b a r rule: getSubstitution.induct) auto

lemma String_replace_first:
  assumes "splitAtFirst pat s = Some (b, a)" and "CHR ''$'' \<notin> set r"
  shows "String_replace s pat r = b @ r @ a"
  using assms by (simp add: String_replace_def getSubstitution_plain)

lemma dirname_loop_component:
  "CHR ''/'' \<notin> set g \<Longrightarrow> g \<noteq> [] \<or> \<not> ms \<Longrightarrow>
   dirname_loop (g @ CHR ''/'' # r) ms = Some (Suc (length r))"
  by (induction g arbitrary: ms) auto

lemma posix_dirname_file:
  assumes "d \<noteq> []" and "last d \<noteq> CHR ''/''" and "f \<noteq> []" and "CHR ''/'' \<notin> set f"
  shows "posix_dirname (d @ CHR ''/'' # f) = d"
proof -
  from assms(1) obtain c cs where d: "d = c # cs" by (cases d) auto
  have "rev (tl (d @ CHR ''/'' # f)) = rev f @ CHR ''/'' # rev cs"
    by (simp add: d)
  moreover have "dirname_loop (rev f @ CHR ''/'' # rev cs) True = Some (Suc (length (rev cs)))"
    by (rule dirname_loop_component) (use assms in auto)
  ultimately have loop: "dirname_loop (rev (tl (d @ CHR ''/'' # f))) True = Some (length d)"
    by (simp add: d)
  have "\<not> (hd d = CHR ''/'' \<and> length d = 1)"
    using assms(2) by (cases d) auto
  then show ?thesis
    using loop assms(1) by (auto simp add: posix_dirname_def)
qed

lemma basename_loop_ext:
  "xs \<noteq> [] \<Longrightarrow> CHR ''/'' \<notin> set xs \<Longrightarrow>
   basename_loop (xs @ rest) xs e fne ms =
   basename_loop rest [] (Some (length rest))
     (if fne = None then Some (length (xs @ rest)) else fne)
     (if fne = None then False else ms)"
proof (induction xs arbitrary: e fne ms)
  case Nil
  then show ?case by simp
next
  case (Cons x xs)
  show ?case
  proof (cases "xs = []")
    case True
    with Cons.prems show ?thesis by (cases fne) (auto simp add: Let_def)
  next
    case False
    with Cons.prems Cons.IH[of e "if fne = None then Some (Suc (length (xs @ rest))) else fne" "if fne = None then False else ms"]
    show ?thesis by (cases fne) (auto simp add: Let_def)
  qed
qed

lemma basename_loop_rest:
  "CHR ''/'' \<notin> set ys \<Longrightarrow>
   basename_loop (ys @ CHR ''/'' # r) [] e (Some f) False = (Suc (length r), e, Some f)"
  by (induction ys) auto

lemma posix_basename_suffix:
  assumes "n \<noteq> []" and "CHR ''/'' \<notin> set n" and "ext \<noteq> []" and "CHR ''/'' \<notin> set ext"
  shows "posix_basename (d @ CHR ''/'' # n @ ext) ext = n"
proof -
  let ?path = "d @ CHR ''/'' # n @ ext"
  have rv: "rev ?path = rev ext @ (rev n @ CHR ''/'' # rev d)" by simp
  have "basename_loop (rev ?path) (rev ext) None None True =
        basename_loop (rev n @ CHR ''/'' # rev d) [] (Some (length (rev n @ CHR ''/'' # rev d)))
          (Some (length ?path)) False"
    unfolding rv using assms(3,4) by (subst basename_loop_ext) (simp_all add: ac_simps)
  also have "\<dots> = (Suc (length d), Some (length (rev n @ CHR ''/'' # rev d)), Some (length ?path))"
    using assms(2) by (subst basename_loop_rest) simp_all
  finally have loop: "basename_loop (rev ?path) (rev ext) None None True =
      (Suc (length d), Some (Suc (length d) + length n), Some (length ?path))" by simp
  have "ext \<noteq> ?path"
  proof
    assume "ext = ?path"
    then have "length ext = length ?path" by simp
    then show False by simp
  qed
  moreover have "take (length n) (drop (Suc (length d)) ?path) = n" by simp
  ultimately show ?thesis
    using assms(1,3) loop by (simp add: posix_basename_def slice_def)
qed


lemma split_sep_nonempty: "split_sep s \<noteq> []"
  by (induction s) (auto split: list.splits)

lemma split_sep_append:
  "split_sep (a @ CHR ''/'' # b) = split_sep a @ split_sep b"
  by (induction a) (auto split: list.splits simp: split_sep_nonempty)

lemma split_sep_noslash: "CHR ''/'' \<notin> set f \<Longrightarrow> split_sep f = [f]"
  by (induction f) auto

lemma join_sep_Cons: "join_sep ((c # s) # ss) = c # join_sep (s # ss)"
  by (cases ss) simp_all

lemma join_split: "join_sep (split_sep s) = s"
proof (induction s)
  case Nil
  show ?case by simp
next
  case (Cons c cs)
  obtain t ts where sp: "split_sep cs = t # ts"
    using split_sep_nonempty[of cs] by (cases "split_sep cs") auto
  with Cons show ?case by (simp add: join_sep_Cons)
qed

lemma join_sep_last:
  "segs \<noteq> [] \<Longrightarrow> last segs \<noteq> [] \<Longrightarrow>
   join_sep segs \<noteq> [] \<and> last (join_sep segs) = last (last segs)"
  by (induction segs rule: join_sep.induct) auto

lemma foldl_normalize_clean:
  "list_all clean_seg segs \<Longrightarrow> foldl (normalize_step b) acc segs = acc @ segs"
  by (induction segs arbitrary: acc) (auto simp: clean_seg_def)

lemma clean_rel_last:
  assumes "clean_rel q"
  shows "q \<noteq> [] \<and> last q \<noteq> CHR ''/''"
proof -
  let ?segs = "split_sep q"
  have ne: "?segs \<noteq> []" by (rule split_sep_nonempty)
  with assms have cl: "clean_seg (last ?segs)"
    by (simp add: clean_rel_def list_all_iff)
  then have "last ?segs \<noteq> []" by (simp add: clean_seg_def)
  with ne have "join_sep ?segs \<noteq> [] \<and> last (join_sep ?segs) = last (last ?segs)"
    by (rule join_sep_last)
  moreover from cl have "last (last ?segs) \<noteq> CHR ''/''"
    by (metis clean_seg_def last_in_set)
  ultimately show ?thesis by (simp add: join_split)
qed

lemma normalizeString_clean:
  "clean_rel q \<Longrightarrow> normalizeString q b = q"
  by (simp add: normalizeString_def clean_rel_def foldl_normalize_clean join_split)

lemma clean_path_last:
  "clean_path x \<Longrightarrow> x \<noteq> [] \<and> last x \<noteq> CHR ''/''"
  by (cases x) (auto simp: clean_path_def dest: clean_rel_last split: if_splits)

lemma posix_normalize_clean:
  assumes "clean_path x"
  shows "posix_normalize x = x"
proof (cases x)
  case Nil
  with assms show ?thesis by (simp add: clean_path_def)
next
  case (Cons c q)
  from assms have last: "last x \<noteq> CHR ''/''" by (simp add: clean_path_last)
  show ?thesis
  proof (cases "c = CHR ''/''")
    case True
    with assms Cons have q: "clean_rel q" by (simp add: clean_path_def)
    then have "q \<noteq> []" by (simp add: clean_rel_last)
    moreover have "normalizeString x False = q"
      using q by (simp add: Cons True normalizeString_def clean_rel_def
          foldl_normalize_clean join_split)
    ultimately show ?thesis
      using last by (simp add: posix_normalize_def Cons True)
  next
    case False
    with assms Cons have "clean_rel x" by (simp add: clean_path_def)
    then have "normalizeString x True = x" by (rule normalizeString_clean)
    then show ?thesis
      using last False by (simp add: posix_normalize_def Cons)
  qed
qed

lemma clean_rel_snoc:
  "clean_rel d \<Longrightarrow> clean_seg f \<Longrightarrow> clean_rel (d @ CHR ''/'' # f)"
  by (simp add: clean_rel_def split_sep_append split_sep_noslash clean_seg_def)

lemma clean_path_snoc:
  "clean_path d \<Longrightarrow> clean_seg f \<Longrightarrow> clean_path (d @ CHR ''/'' # f)"
  by (cases d) (auto simp: clean_path_def dest: clean_rel_snoc split: if_splits)

lemma posix_join2_clean:
  assumes "clean_path d" and "clean_seg f"
  shows "posix_join [d, f] = d @ CHR ''/'' # f"
proof -
  from assms have "d \<noteq> []" and "f \<noteq> []"
    by (simp_all add: clean_path_last clean_seg_def)
  then have "posix_join [d, f] = posix_normalize (d @ CHR ''/'' # f)"
    by (simp add: posix_join_def)
  with assms show ?thesis by (simp add: posix_normalize_clean clean_path_snoc)
qed

lemma posix_join3_clean:
  assumes "clean_path d" and "clean_seg f" and "clean_seg g"
  shows "posix_join [d, f, g] = d @ CHR ''/'' # f @ CHR ''/'' # g"
proof -
  from assms have "d \<noteq> []" and "f \<noteq> []" and "g \<noteq> []"
    by (simp_all add: clean_path_last clean_seg_def)
  then have "posix_join [d, f, g] = posix_normalize ((d @ CHR ''/'' # f) @ CHR ''/'' # g)"
    by (simp add: posix_join_def)
  moreover have "clean_path ((d @ CHR ''/'' # f) @ CHR ''/'' # g)"
    using assms by (intro clean_path_snoc)
  ultimately show ?thesis by (simp add: posix_normalize_clean)
qed

lemma clean_seg_nondot:
  "CHR ''/'' \<notin> set s \<Longrightarrow> c \<in> set s \<Longrightarrow> c \<noteq> CHR ''.'' \<Longrightarrow> clean_seg s"
  by (auto simp: clean_seg_def)

lemma resolveSnapshotPath_clean:
  assumes src: "clean_path (pre @ srctest @ mid)"
    and base: "base \<noteq> []" "CHR ''/'' \<notin> set base"
    and ext: "CHR ''/'' \<notin> set ext"
    and occ: "splitAtFirst libtest dir = Some (pre, mid)"
    and dollar: "CHR ''$'' \<notin> set srctest"
  shows "resolveSnapshotPath libtest srctest (dir @ ''/'' @ base @ ''.js'') ext =
         Inr ((pre @ srctest @ mid) @ ''/__snapshots__/'' @ base @ ''.ts'' @ ext)"
proof -
  let ?D = "pre @ srctest @ mid"
  have "splitAtFirst libtest (dir @ ''/'' @ base @ ''.js'') =
        Some (pre, mid @ ''/'' @ base @ ''.js'')"
    using occ by (rule splitAtFirst_append)
  then have full: "String_replace (dir @ ''/'' @ base @ ''.js'') libtest srctest =
        ?D @ CHR ''/'' # base @ ''.js''"
    using dollar by (simp add: String_replace_first)
  from src have D: "?D \<noteq> []" "last ?D \<noteq> CHR ''/''"
    using clean_path_last by blast+
  have dn: "posix_dirname (?D @ CHR ''/'' # base @ ''.js'') = ?D"
    using D base by (intro posix_dirname_file) simp_all
  have bn: "posix_basename (?D @ CHR ''/'' # base @ ''.js'') ''.js'' = base"
    using base by (intro posix_basename_suffix) simp_all
  have "clean_seg ''__snapshots__''" by (simp add: clean_seg_def)
  moreover have "clean_seg (base @ ''.ts'' @ ext)"
    using base ext by (intro clean_seg_nondot[where c = "CHR ''t''"]) simp_all
  ultimately have "posix_join [?D, ''__snapshots__'', base @ ''.ts'' @ ext] =
      ?D @ CHR ''/'' # ''__snapshots__'' @ CHR ''/'' # (base @ ''.ts'' @ ext)"
    using src by (intro posix_join3_clean)
  with full dn bn show ?thesis
    by (simp add: resolveSnapshotPath_def)
qed

lemma resolveTestPath_clean:
  assumes src: "clean_path (pre @ srctest @ mid)"
    and lib: "clean_path (pre @ libtest @ mid)"
    and base: "base \<noteq> []" "CHR ''/'' \<notin> set base"
    and ext: "CHR ''/'' \<notin> set ext"
    and occ: "splitAtFirst srctest (pre @ srctest @ mid) = Some (pre, mid)"
    and dollar: "CHR ''$'' \<notin> set libtest"
  shows "resolveTestPath libtest srctest
           ((pre @ srctest @ mid) @ ''/__snapshots__/'' @ base @ ''.ts'' @ ext) ext =
         Inr ((pre @ libtest @ mid) @ ''/'' @ base @ ''.js'')"
proof -
  let ?D = "pre @ srctest @ mid"
  let ?S = "?D @ CHR ''/'' # ''__snapshots__''"
  let ?snap = "?S @ CHR ''/'' # base @ ''.ts'' @ ext"
  from src have D: "?D \<noteq> []" "last ?D \<noteq> CHR ''/''"
    using clean_path_last by blast+
  have bn: "posix_basename ?snap (''.ts'' @ ext) = base"
    using base ext by (intro posix_basename_suffix) simp_all
  have "posix_dirname ?snap = ?S"
    using base ext by (intro posix_dirname_file) simp_all
  moreover have "posix_dirname ?S = ?D"
    using D by (intro posix_dirname_file) simp_all
  ultimately have dn: "posix_dirname (posix_dirname ?snap) = ?D" by simp
  have rp: "String_replace ?D srctest libtest = pre @ libtest @ mid"
    using occ dollar by (rule String_replace_first)
  have "clean_seg (base @ ''.js'')"
    using base by (intro clean_seg_nondot[where c = "CHR ''j''"]) simp_all
  with lib have "posix_join [pre @ libtest @ mid, base @ ''.js''] =
      (pre @ libtest @ mid) @ CHR ''/'' # base @ ''.js''"
    by (rule posix_join2_clean)
  moreover have "?snap = (pre @ srctest @ mid) @ ''/__snapshots__/'' @ base @ ''.ts'' @ ext"
    by simp
  ultimately show ?thesis
    using bn dn rp by (simp add: resolveTestPath_def)
qed

lemma splitAtFirst_complete:
  "splitAtFirst pat (b @ pat @ a) \<noteq> None"
proof (induction b)
  case Nil
  have "startsWith (pat @ a) pat" by simp
  then show ?case by (cases "pat @ a") (auto simp del: startsWith.simps)
next
  case (Cons c b)
  then show ?case by (auto simp del: startsWith.simps)
qed

lemma splitAtFirst_None_iff:
  "splitAtFirst pat s = None \<longleftrightarrow> \<not> (\<exists>b a. s = b @ pat @ a)"
proof
  assume "splitAtFirst pat s = None"
  then show "\<not> (\<exists>b a. s = b @ pat @ a)"
    using splitAtFirst_complete by blast
next
  assume "\<not> (\<exists>b a. s = b @ pat @ a)"
  show "splitAtFirst pat s = None"
  proof (cases "splitAtFirst pat s")
    case None
    then show ?thesis .
  next
    case (Some ba)
    then have "s = fst ba @ pat @ snd ba"
      by (intro splitAtFirst_sound) simp
    with \<open>\<not> (\<exists>b a. s = b @ pat @ a)\<close> show ?thesis by blast
  qed
qed

lemma String_replace_absent:
  "\<not> (\<exists>b a. s = b @ pat @ a) \<Longrightarrow> String_replace s pat r = s"
proof -
  assume "\<not> (\<exists>b a. s = b @ pat @ a)"
  then have "splitAtFirst pat s = None" by (simp add: splitAtFirst_None_iff)
  then show ?thesis by (simp add: String_replace_def)
qed

lemma list_trichotomy:
  "(\<exists>t. ys = xs @ t) \<or> (\<exists>u t. xs = ys @ u # t) \<or>
   (\<exists>cm a b r1 r2. xs = cm @ a # r1 \<and> ys = cm @ b # r2 \<and> a \<noteq> b)"
proof (induction xs arbitrary: ys)
  case Nil
  show ?case by simp
next
  case (Cons x xs)
  show ?case
  proof (cases ys)
    case Nil
    then show ?thesis by simp
  next
    case (Cons y ys')
    show ?thesis
    proof (cases "x = y")
      case False
      then have "x # xs = [] @ x # xs \<and> ys = [] @ y # ys' \<and> x \<noteq> y"
        using Cons by simp
      then show ?thesis by blast
    next
      case True
      from Cons.IH[of ys'] show ?thesis
      proof (elim disjE exE conjE)
        fix t assume "ys' = xs @ t"
        then show ?thesis using True Cons by simp
      next
        fix u t assume "xs = ys' @ u # t"
        then show ?thesis using True Cons by simp
      next
        fix cm a b r1 r2
        assume "xs = cm @ a # r1" "ys' = cm @ b # r2" "a \<noteq> b"
        then have "x # xs = (x # cm) @ a # r1 \<and> ys = (x # cm) @ b # r2 \<and> a \<noteq> b"
          using True Cons by simp
        then show ?thesis by blast
      qed
    qed
  qed
qed

text \<open>The loop after the first character of the last component.\<close>

lemma basename_loop_partial:
  "CHR ''/'' \<notin> set rf \<Longrightarrow>
   basename_loop (rf @ CHR ''/'' # rd) (rf @ x # xs) e (Some F) False =
     (Suc (length rd), e, Some F)"
  by (induction rf) (auto simp: Let_def)

lemma basename_loop_mismatch:
  "CHR ''/'' \<notin> set cm \<Longrightarrow> CHR ''/'' \<notin> set r1 \<Longrightarrow> c \<noteq> CHR ''/'' \<Longrightarrow> c \<noteq> x \<Longrightarrow>
   basename_loop (cm @ c # r1 @ CHR ''/'' # rd) (cm @ x # xs) e (Some F) False =
     (Suc (length rd), Some F, Some F)"
proof (induction cm)
  case Nil
  then show ?case by (simp add: Let_def basename_loop_rest)
next
  case (Cons a cm)
  then show ?case by (auto simp: Let_def)
qed

lemma basename_loop_whole:
  "CHR ''/'' \<notin> set rf \<Longrightarrow> rf \<noteq> [] \<Longrightarrow>
   basename_loop (rf @ CHR ''/'' # rd) rf e (Some F) False =
     (Suc (length rd), Some (Suc (length rd)), Some F)"
proof (induction rf)
  case Nil
  then show ?case by simp
next
  case (Cons a rf)
  then show ?case
    by (cases "rf = []") (auto simp: Let_def)
qed


lemma basename_loop0_component:
  "CHR ''/'' \<notin> set rf \<Longrightarrow>
   basename_loop0 (rf @ CHR ''/'' # rd) (Some F) False = (Suc (length rd), Some F)"
  by (induction rf) auto

lemma basename_loop_unstripped:
  assumes rf: "CHR ''/'' \<notin> set rf" "rf \<noteq> []"
    and no: "\<not> (\<exists>u t. rf = rx @ u # t)"
  shows "\<exists>e. basename_loop (rf @ CHR ''/'' # rd) rx None None True =
           (Suc (length rd), e, Some (length (rf @ CHR ''/'' # rd))) \<and>
         (e = None \<or> e = Some (Suc (length rd)) \<or> e = Some (length (rf @ CHR ''/'' # rd)))"
proof -
  let ?L = "length (rf @ CHR ''/'' # rd)"
  from rf obtain c rf' where c: "rf = c # rf'" "c \<noteq> CHR ''/''" "CHR ''/'' \<notin> set rf'"
    by (cases rf) auto
  have L: "Suc (length (rf' @ CHR ''/'' # rd)) = ?L" by (simp add: c)
  from list_trichotomy[of rx rf] no consider
      (pre) t where "rx = rf @ t"
    | (mis) cm a b r1 r2 where "rf = cm @ a # r1" "rx = cm @ b # r2" "a \<noteq> b"
    by blast
  then show ?thesis
  proof cases
    case pre
    show ?thesis
    proof (cases "t = []")
      case False
      then obtain x xs where t: "t = x # xs" by (cases t) auto
      have "basename_loop (rf @ CHR ''/'' # rd) rx None None True =
            basename_loop (rf' @ CHR ''/'' # rd) (rf' @ x # xs) None (Some ?L) False"
        using c pre t L by (simp add: Let_def)
      also have "\<dots> = (Suc (length rd), None, Some ?L)"
        using c(3) by (rule basename_loop_partial)
      finally show ?thesis by simp
    next
      case True
      show ?thesis
      proof (cases "rf' = []")
        case True
        with \<open>t = []\<close> c pre show ?thesis by (simp add: Let_def)
      next
        case False
        with \<open>t = []\<close> have "basename_loop (rf @ CHR ''/'' # rd) rx None None True =
            basename_loop (rf' @ CHR ''/'' # rd) rf' None (Some ?L) False"
          using c pre L by (simp add: Let_def)
        also have "\<dots> = (Suc (length rd), Some (Suc (length rd)), Some ?L)"
          using c(3) False by (rule basename_loop_whole)
        finally show ?thesis by simp
      qed
    qed
  next
    case mis
    show ?thesis
    proof (cases cm)
      case Nil
      with mis c have ab: "a = c" "r1 = rf'" "c \<noteq> b" by simp_all
      have "basename_loop (rf @ CHR ''/'' # rd) rx None None True =
            basename_loop (rf' @ CHR ''/'' # rd) [] (Some ?L) (Some ?L) False"
        using c mis Nil ab L by (simp add: Let_def)
      also have "\<dots> = (Suc (length rd), Some ?L, Some ?L)"
        using c(3) by (rule basename_loop_rest)
      finally show ?thesis by simp
    next
      case (Cons c' cm')
      with mis c have eq: "c' = c" "rf' = cm' @ a # r1" by simp_all
      with c(3) have ns: "CHR ''/'' \<notin> set cm'" "CHR ''/'' \<notin> set r1" "a \<noteq> CHR ''/''"
        by auto
      have "basename_loop (rf @ CHR ''/'' # rd) rx None None True =
            basename_loop (cm' @ a # r1 @ CHR ''/'' # rd) (cm' @ b # r2) None (Some ?L) False"
        using c mis Cons eq L by (simp add: Let_def)
      also have "\<dots> = (Suc (length rd), Some ?L, Some ?L)"
        using ns mis(3) by (rule basename_loop_mismatch)
      finally show ?thesis by simp
    qed
  qed
qed

lemma posix_basename_no_ext:
  assumes "\<not> (ext \<noteq> [] \<and> length ext \<le> length path)"
    and "basename_loop0 (rev path) None True = (start, Some n)"
  shows "posix_basename path ext = slice path start (Some n)"
  unfolding posix_basename_def using assms by (simp only: if_not_P) simp

lemma posix_basename_with_ext:
  assumes "ext \<noteq> []" and "length ext \<le> length path" and "ext \<noteq> path"
    and "basename_loop (rev path) (rev ext) None None True = (start, e, fne)"
  shows "posix_basename path ext =
         slice path start
           (if Some start = e then fne else if e = None then Some (length path) else e)"
proof -
  have c: "ext \<noteq> [] \<and> length ext \<le> length path" using assms by simp
  show ?thesis
    unfolding posix_basename_def
    by (simp only: if_P[OF c] if_not_P[OF assms(3)] assms(4) prod.case)
qed

lemma posix_basename_unstripped:
  assumes f: "f \<noteq> []" "CHR ''/'' \<notin> set f"
    and ext: "CHR ''/'' \<notin> set ext"
    and no: "\<not> (\<exists>n. n \<noteq> [] \<and> f = n @ ext)"
  shows "posix_basename (d @ CHR ''/'' # f) ext = f"
proof -
  let ?path = "d @ CHR ''/'' # f"
  have rv: "rev ?path = rev f @ CHR ''/'' # rev d" by simp
  have ne: "ext \<noteq> ?path" using ext by auto
  have sl: "slice ?path (Suc (length d)) (Some (length ?path)) = f"
    by (simp add: slice_def)
  show ?thesis
  proof (cases "ext \<noteq> [] \<and> length ext \<le> length ?path")
    case False
    have "rev f \<noteq> []" and "CHR ''/'' \<notin> set (rev f)" using f by simp_all
    then obtain c rf' where c: "rev f = c # rf'" "c \<noteq> CHR ''/''" "CHR ''/'' \<notin> set rf'"
      by (cases "rev f") (auto simp del: rev_is_Nil_conv set_rev)
    then have "length f = Suc (length rf')" by (metis length_Cons length_rev)
    then have "basename_loop0 (rev ?path) None True =
        basename_loop0 (rf' @ CHR ''/'' # rev d) (Some (length ?path)) False"
      using c by (simp add: rv ac_simps)
    also have "\<dots> = (Suc (length d), Some (length ?path))"
      using c(3) by (simp add: basename_loop0_component)
    finally have "basename_loop0 (rev ?path) None True = (Suc (length d), Some (length ?path))" .
    with False have "posix_basename ?path ext = slice ?path (Suc (length d)) (Some (length ?path))"
      by (rule posix_basename_no_ext)
    with sl show ?thesis by simp
  next
    case True
    have "\<not> (\<exists>u t. rev f = rev ext @ u # t)"
    proof
      assume "\<exists>u t. rev f = rev ext @ u # t"
      then obtain u t where "rev f = rev ext @ u # t" by blast
      then have "f = rev (u # t) @ ext" by (metis rev_append rev_rev_ident)
      with no show False by simp
    qed
    with f obtain e where
      loop: "basename_loop (rev f @ CHR ''/'' # rev d) (rev ext) None None True =
           (Suc (length (rev d)), e, Some (length (rev f @ CHR ''/'' # rev d)))"
      and e: "e = None \<or> e = Some (Suc (length (rev d))) \<or>
              e = Some (length (rev f @ CHR ''/'' # rev d))"
      using basename_loop_unstripped[of "rev f" "rev ext" "rev d"] by auto
    have len: "length (rev f @ CHR ''/'' # rev d) = length ?path" by simp
    from loop have loop': "basename_loop (rev ?path) (rev ext) None None True =
           (Suc (length d), e, Some (length ?path))"
      unfolding rv len by simp
    have "posix_basename ?path ext =
         slice ?path (Suc (length d))
           (if Some (Suc (length d)) = e then Some (length ?path)
            else if e = None then Some (length ?path) else e)"
      using True ne loop' by (intro posix_basename_with_ext) simp_all
    moreover have "(if Some (Suc (length d)) = e then Some (length ?path)
            else if e = None then Some (length ?path) else e) = Some (length ?path)"
      using e len by auto
    ultimately show ?thesis using sl by simp
  qed
qed

section \<open>The snapshot resolver: round trip and failure\<close>

text \<open>
  Claim C1, as the code has it.  Let \<open>p\<close> be \<open>dir/base.js\<close>, where \<open>dir\<close> is a path
  in normal form, \<open>base\<close> is not empty and holds no slash, and \<open>ext\<close> holds no
  slash.  Let neither root hold a dollar sign, let the first occurrence of \<open>libtest\<close>
  in \<open>dir\<close> cut it into \<open>pre\<close>, \<open>libtest\<close> and \<open>mid\<close>, and let \<open>pre\<close>, \<open>srctest\<close>, \<open>mid\<close>
  be a path in normal form again in which the first occurrence of \<open>srctest\<close> is the
  one just put in.  Then \<open>resolveSnapshotPath\<close> gives
  \<open>pre srctest mid/__snapshots__/base.ts ext\<close>, and \<open>resolveTestPath\<close> of that is
  \<open>p\<close> again.
\<close>

theorem roundTrip_clean:
  assumes "clean_path dir"
    and "base \<noteq> []" and "CHR ''/'' \<notin> set base" and "CHR ''/'' \<notin> set ext"
    and "CHR ''$'' \<notin> set srctest" and "CHR ''$'' \<notin> set libtest"
    and "splitAtFirst libtest dir = Some (pre, mid)"
    and "clean_path (pre @ srctest @ mid)"
    and "splitAtFirst srctest (pre @ srctest @ mid) = Some (pre, mid)"
  shows "resolveSnapshotPath libtest srctest (dir @ ''/'' @ base @ ''.js'') ext =
           Inr (pre @ srctest @ mid @ ''/__snapshots__/'' @ base @ ''.ts'' @ ext)
         \<and> roundTrip libtest srctest (dir @ ''/'' @ base @ ''.js'') ext =
           Inr (dir @ ''/'' @ base @ ''.js'')"
proof -
  from assms(7) have dir: "dir = pre @ libtest @ mid" by (rule splitAtFirst_sound)
  have fwd: "resolveSnapshotPath libtest srctest (dir @ ''/'' @ base @ ''.js'') ext =
         Inr ((pre @ srctest @ mid) @ ''/__snapshots__/'' @ base @ ''.ts'' @ ext)"
    using assms by (intro resolveSnapshotPath_clean)
  have bwd: "resolveTestPath libtest srctest
           ((pre @ srctest @ mid) @ ''/__snapshots__/'' @ base @ ''.ts'' @ ext) ext =
         Inr ((pre @ libtest @ mid) @ ''/'' @ base @ ''.js'')"
    using assms dir by (intro resolveTestPath_clean) simp_all
  from fwd bwd dir show ?thesis by (simp add: roundTrip_def)
qed

text \<open>
  The path of the specification: with the roots \<open>lib/test\<close> and \<open>test\<close>, the test
  \<open>lib/test/foo/bar.test.js\<close> has the snapshot \<open>test/foo/__snapshots__/bar.test.ts.snap\<close>
  and comes back from it.
\<close>

theorem roundTrip_clean_witness:
  "roundTrip ''lib/test'' ''test'' ''lib/test/foo/bar.test.js'' ''.snap'' =
     Inr ''lib/test/foo/bar.test.js''
   \<and> resolveSnapshotPath ''lib/test'' ''test'' ''lib/test/foo/bar.test.js'' ''.snap'' =
     Inr ''test/foo/__snapshots__/bar.test.ts.snap''"
proof -
  have 1: "clean_path ''lib/test/foo''" by code_simp
  have 2: "splitAtFirst ''lib/test'' ''lib/test/foo'' = Some ([], ''/foo'')" by code_simp
  have 3: "clean_path ([] @ ''test'' @ ''/foo'')" by code_simp
  have 4: "splitAtFirst ''test'' ([] @ ''test'' @ ''/foo'') = Some ([], ''/foo'')" by code_simp
  show ?thesis
    using roundTrip_clean[of "''lib/test/foo''" "''bar.test''" "''.snap''" "''test''"
        "''lib/test''" "[]" "''/foo''", OF 1 _ _ _ _ _ 2 3 4]
    by simp
qed

text \<open>
  The round trip does not hold for every path that contains \<open>libtest\<close>: in
  \<open>test/lib/test/a.test.js\<close> the root \<open>lib/test\<close> is replaced by \<open>test\<close>, and on the
  way back \<open>replace\<close> finds the other, earlier \<open>test\<close>.
\<close>

theorem roundTrip_counterexample:
  "''test/lib/test/a.test.js'' = ''test/'' @ ''lib/test'' @ ''/a.test.js''
   \<and> resolveSnapshotPath ''lib/test'' ''test'' ''test/lib/test/a.test.js'' ''.snap'' =
       Inr ''test/test/__snapshots__/a.test.ts.snap''
   \<and> roundTrip ''lib/test'' ''test'' ''test/lib/test/a.test.js'' ''.snap'' =
       Inr ''lib/test/test/a.test.js''
   \<and> roundTrip ''lib/test'' ''test'' ''test/lib/test/a.test.js'' ''.snap'' \<noteq>
       Inr ''test/lib/test/a.test.js''"
proof -
  have "resolveSnapshotPath ''lib/test'' ''test'' ''test/lib/test/a.test.js'' ''.snap'' =
       Inr ''test/test/__snapshots__/a.test.ts.snap''"
    by code_simp
  moreover have "roundTrip ''lib/test'' ''test'' ''test/lib/test/a.test.js'' ''.snap'' =
       Inr ''lib/test/test/a.test.js''"
    by code_simp
  ultimately show ?thesis by simp
qed

text \<open>
  Claim C2, as the code has it.  Neither function fails: each returns a path on every
  input.  When \<open>libtest\<close> does not occur in the test path, \<open>resolveSnapshotPath\<close>
  works on the path as it is.  When the base name \<open>f\<close> of the snapshot path does not
  end in \<open>.ts\<close> and the extension (after at least one other character),
  \<open>resolveTestPath\<close> keeps the whole of \<open>f\<close> and appends \<open>.js\<close>.
\<close>

theorem resolvers_always_return:
  "(\<exists>s. resolveSnapshotPath libtest srctest p ext = Inr s)
   \<and> (\<exists>t. resolveTestPath libtest srctest q ext = Inr t)
   \<and> (\<not> (\<exists>b a. p = b @ libtest @ a) \<longrightarrow>
        resolveSnapshotPath libtest srctest p ext =
          Inr (posix_join [posix_dirname p, ''__snapshots__'',
                           posix_basename p ''.js'' @ ''.ts'' @ ext]))
   \<and> (f \<noteq> [] \<and> CHR ''/'' \<notin> set f \<and> CHR ''/'' \<notin> set ext \<and>
        \<not> (\<exists>n. n \<noteq> [] \<and> f = n @ ''.ts'' @ ext) \<longrightarrow>
        resolveTestPath libtest srctest (d @ ''/'' @ f) ext =
          Inr (posix_join
                 [String_replace (posix_dirname (posix_dirname (d @ ''/'' @ f))) srctest libtest,
                  f @ ''.js'']))"
proof (intro conjI impI)
  show "\<exists>s. resolveSnapshotPath libtest srctest p ext = Inr s"
    by (simp add: resolveSnapshotPath_def Let_def)
next
  show "\<exists>t. resolveTestPath libtest srctest q ext = Inr t"
    by (simp add: resolveTestPath_def Let_def)
next
  assume "\<not> (\<exists>b a. p = b @ libtest @ a)"
  then have "String_replace p libtest srctest = p" by (rule String_replace_absent)
  then show "resolveSnapshotPath libtest srctest p ext =
          Inr (posix_join [posix_dirname p, ''__snapshots__'',
                           posix_basename p ''.js'' @ ''.ts'' @ ext])"
    by (simp add: resolveSnapshotPath_def)
next
  assume a: "f \<noteq> [] \<and> CHR ''/'' \<notin> set f \<and> CHR ''/'' \<notin> set ext \<and>
        \<not> (\<exists>n. n \<noteq> [] \<and> f = n @ ''.ts'' @ ext)"
  then have "posix_basename (d @ CHR ''/'' # f) (''.ts'' @ ext) = f"
    by (intro posix_basename_unstripped) simp_all
  then show "resolveTestPath libtest srctest (d @ ''/'' @ f) ext =
          Inr (posix_join
                 [String_replace (posix_dirname (posix_dirname (d @ ''/'' @ f))) srctest libtest,
                  f @ ''.js''])"
    by (simp add: resolveTestPath_def)
qed

text \<open>
  Two such inputs: a test path without \<open>lib/test\<close> and a snapshot path whose base
  name does not end in \<open>.ts.snap\<close>.
\<close>

theorem resolvers_always_return_witness:
  "resolveSnapshotPath ''lib/test'' ''test'' ''other/dir/x.js'' ''.snap'' =
     Inr ''other/dir/__snapshots__/x.ts.snap''
   \<and> resolveTestPath ''lib/test'' ''test'' ''test/__snapshots__/x.txt'' ''.snap'' =
     Inr ''lib/test/x.txt.js''"
proof -
  have "splitAtFirst ''lib/test'' ''other/dir/x.js'' = None" by code_simp
  then have 1: "\<not> (\<exists>b a. ''other/dir/x.js'' = b @ ''lib/test'' @ a)"
    by (rule iffD1[OF splitAtFirst_None_iff])
  have 2: "\<not> (\<exists>n. n \<noteq> [] \<and> ''x.txt'' = n @ ''.ts'' @ ''.snap'')"
  proof
    assume "\<exists>n. n \<noteq> [] \<and> ''x.txt'' = n @ ''.ts'' @ ''.snap''"
    then obtain n where "''x.txt'' = n @ ''.ts'' @ ''.snap''" by blast
    then have "length ''x.txt'' = length (n @ ''.ts'' @ ''.snap'')" by (rule arg_cong)
    then show False by simp
  qed
  have 3: "posix_join [posix_dirname ''other/dir/x.js'', ''__snapshots__'',
                       posix_basename ''other/dir/x.js'' ''.js'' @ ''.ts'' @ ''.snap''] =
           ''other/dir/__snapshots__/x.ts.snap''"
    by code_simp
  have 4: "posix_join
             [String_replace (posix_dirname (posix_dirname (''test/__snapshots__'' @ ''/'' @ ''x.txt'')))
                ''test'' ''lib/test'',
              ''x.txt'' @ ''.js''] = ''lib/test/x.txt.js''"
    by code_simp
  from resolvers_always_return[of "''lib/test''" "''test''" "''other/dir/x.js''" "''.snap''"
      "''x''" "''x.txt''" "''test/__snapshots__''"] 1 2 3 4
  show ?thesis by simp
qed

text \<open>
  On the path \<open>other/dir/x.js\<close>, which does not contain \<open>lib/test\<close>,
  \<open>resolveSnapshotPath\<close> returns a path and not \<open>MalformedPathError\<close>; on a snapshot
  path without the suffix \<open>.ts.snap\<close>, \<open>resolveTestPath\<close> returns a path as well.
\<close>

theorem resolvers_fail_counterexample:
  "\<not> (\<exists>b a. ''other/dir/x.js'' = b @ ''lib/test'' @ a)
   \<and> resolveSnapshotPath ''lib/test'' ''test'' ''other/dir/x.js'' ''.snap'' =
     Inr ''other/dir/__snapshots__/x.ts.snap''
   \<and> posix_basename ''test/__snapshots__/x.txt'' (''.ts'' @ ''.snap'') = ''x.txt''
   \<and> resolveTestPath ''lib/test'' ''test'' ''test/__snapshots__/x.txt'' ''.snap'' =
     Inr ''lib/test/x.txt.js''"
proof -
  have "splitAtFirst ''lib/test'' ''other/dir/x.js'' = None" by code_simp
  then have "\<not> (\<exists>b a. ''other/dir/x.js'' = b @ ''lib/test'' @ a)"
    by (rule iffD1[OF splitAtFirst_None_iff])
  moreover have "resolveSnapshotPath ''lib/test'' ''test'' ''other/dir/x.js'' ''.snap'' =
     Inr ''other/dir/__snapshots__/x.ts.snap''"
    by code_simp
  moreover have "posix_basename ''test/__snapshots__/x.txt'' (''.ts'' @ ''.snap'') = ''x.txt''"
    by code_simp
  moreover have "resolveTestPath ''lib/test'' ''test'' ''test/__snapshots__/x.txt'' ''.snap'' =
     Inr ''lib/test/x.txt.js''"
    by code_simp
  ultimately show ?thesis by blast
qed

section \<open>Properties of mergeTsconfigOptions\<close>

lemma map_filter_Some: "List.map_filter (\<lambda>x. x) (map Some fs) = fs"
  by (induction fs) (simp_all add: map_filter_simps)

lemma map_filter_append:
  "List.map_filter f (xs @ ys) = List.map_filter f xs @ List.map_filter f ys"
  by (simp add: map_filter_def)

lemma map_filter_all_None:
  "(\<forall>x \<in> set fs. x = None) \<Longrightarrow> List.map_filter (\<lambda>x. x) fs = []"
  by (induction fs) (simp_all add: map_filter_simps)

lemma map_filter_defined:
  "Some f \<in> set fs \<Longrightarrow> List.map_filter (\<lambda>x. x) fs \<noteq> []"
  by (induction fs) (auto simp: map_filter_simps split: option.splits)

lemma map_filter_drop_None:
  "List.map_filter (\<lambda>x. x) (filter (\<lambda>x. x \<noteq> None) fs) = List.map_filter (\<lambda>x. x) fs"
  by (induction fs) (auto simp: map_filter_simps split: option.splits)

lemma foldl_reducer_include:
  "include' (foldl reducer acc fs) =
     (if fs = [] then include' acc
      else Some (coalesce (include' acc) [] @ concat (map (\<lambda>f. coalesce (include' f) []) fs)))"
  by (induction fs arbitrary: acc) (simp_all add: reducer_def coalesce_def)

lemma foldl_reducer_exclude:
  "exclude (foldl reducer acc fs) =
     (if fs = [] then exclude acc
      else Some (coalesce (exclude acc) [] @ concat (map (\<lambda>f. coalesce (exclude f) []) fs)))"
  by (induction fs arbitrary: acc) (simp_all add: reducer_def coalesce_def)

lemma reducer_assoc: "reducer (reducer a b) c = reducer a (reducer b c)"
  by (simp add: reducer_def coalesce_def split: option.splits)

lemma foldl_reducer_assoc:
  "foldl reducer (reducer a b) ds = reducer a (foldl reducer b ds)"
  by (induction ds arbitrary: b) (simp_all add: reducer_assoc)

lemma reducer_initialValue_left: "reducer initialValue (reducer a b) = reducer a b"
  by (simp add: reducer_def initialValue_def coalesce_def split: option.splits)

lemma reducer_initialValue_right: "reducer (reducer a b) initialValue = reducer a b"
  by (simp add: reducer_def initialValue_def coalesce_def split: option.splits)

lemma reducer_initialValue_arg: "reducer (reducer initialValue a) b = reducer a b"
  by (simp add: reducer_def initialValue_def coalesce_def split: option.splits)

lemma foldl_reducer_nonempty:
  "ds \<noteq> [] \<Longrightarrow> \<exists>a b. foldl reducer acc ds = reducer a b"
proof (induction ds rule: rev_induct)
  case Nil
  then show ?case by simp
next
  case (snoc d ds)
  show ?case by (rule exI[of _ "foldl reducer acc ds"], rule exI[of _ d]) simp
qed

lemma merge_remerge:
  assumes "Some f \<in> set fs"
  shows "mergeTsconfigOptions [Some (mergeTsconfigOptions fs)] = mergeTsconfigOptions fs"
proof -
  from assms have "List.map_filter (\<lambda>x. x) fs \<noteq> []" by (rule map_filter_defined)
  then obtain a b where "foldl reducer initialValue (List.map_filter (\<lambda>x. x) fs) = reducer a b"
    using foldl_reducer_nonempty by blast
  then show ?thesis
    by (simp add: mergeTsconfigOptions_def map_filter_simps reducer_initialValue_left)
qed

lemma merge_of_merges:
  assumes "Some f \<in> set (fs @ gs)"
  shows "mergeTsconfigOptions [Some (mergeTsconfigOptions fs), Some (mergeTsconfigOptions gs)] =
         mergeTsconfigOptions (fs @ gs)"
proof -
  let ?ds = "List.map_filter (\<lambda>x. x) fs" and ?es = "List.map_filter (\<lambda>x. x) gs"
  let ?F = "foldl reducer initialValue ?ds" and ?G = "foldl reducer initialValue ?es"
  have lhs: "mergeTsconfigOptions [Some (mergeTsconfigOptions fs), Some (mergeTsconfigOptions gs)] =
      reducer ?F ?G"
    by (simp add: mergeTsconfigOptions_def map_filter_simps reducer_initialValue_arg)
  have rhs: "mergeTsconfigOptions (fs @ gs) = foldl reducer ?F ?es"
    by (simp add: mergeTsconfigOptions_def map_filter_append)
  show ?thesis
  proof (cases ?es)
    case Nil
    with assms have "?ds \<noteq> []"
      using map_filter_defined[of f "fs @ gs"] by (simp add: map_filter_append)
    then obtain a b where "?F = reducer a b" using foldl_reducer_nonempty by blast
    with Nil lhs rhs show ?thesis by (simp add: reducer_initialValue_right)
  next
    case (Cons e es)
    have "?G = reducer initialValue (foldl reducer e es)"
      by (simp add: Cons foldl_reducer_assoc)
    then have "reducer ?F ?G = reducer (reducer ?F initialValue) (foldl reducer e es)"
      by (simp add: reducer_assoc)
    also have "\<dots> = reducer ?F (foldl reducer e es)"
      by (simp add: reducer_def initialValue_def coalesce_def split: option.splits)
    also have "\<dots> = foldl reducer ?F ?es"
      by (simp add: Cons foldl_reducer_assoc)
    finally show ?thesis using lhs rhs by simp
  qed
qed

text \<open>
  Claim C4.  For a list of defined fragments the merged \<open>include\<close> is the
  concatenation, from left to right, of the \<open>include\<close> lists of the fragments, a
  missing list counting as empty; nothing is reordered and nothing removed.  The field
  is present whenever there is a fragment and missing when there is none.  The same
  holds for \<open>exclude\<close>.  In particular, fragments with the \<open>include\<close> lists \<open>[a]\<close> and
  \<open>[b]\<close> merge to \<open>[a, b]\<close> in this order and to \<open>[b, a]\<close> in the other.
\<close>

theorem merge_include_concat:
  "include' (mergeTsconfigOptions (map Some fs)) =
     (if fs = [] then None else Some (concat (map (\<lambda>f. coalesce (include' f) []) fs)))
   \<and> exclude (mergeTsconfigOptions (map Some fs)) =
     (if fs = [] then None else Some (concat (map (\<lambda>f. coalesce (exclude f) []) fs)))
   \<and> coalesce (include' (mergeTsconfigOptions (map Some fs))) [] =
       concat (map (\<lambda>f. coalesce (include' f) []) fs)
   \<and> coalesce (exclude (mergeTsconfigOptions (map Some fs))) [] =
       concat (map (\<lambda>f. coalesce (exclude f) []) fs)
   \<and> include' (mergeTsconfigOptions [Some (A\<lparr>include' := Some [a]\<rparr>), Some (B\<lparr>include' := Some [b]\<rparr>)]) =
       Some [a, b]
   \<and> include' (mergeTsconfigOptions [Some (B\<lparr>include' := Some [b]\<rparr>), Some (A\<lparr>include' := Some [a]\<rparr>)]) =
       Some [b, a]"
  by (simp add: mergeTsconfigOptions_def map_filter_Some foldl_reducer_include
      foldl_reducer_exclude initialValue_def coalesce_def map_filter_simps reducer_def)

theorem merge_include_concat_witness:
  "include' (mergeTsconfigOptions
     [Some \<lparr>fileName = None, include' = Some [''src/**/*.ts''], exclude = None,
            compilerOptions = Map.empty\<rparr>,
      Some \<lparr>fileName = None, include' = None, exclude = Some [''node_modules''],
            compilerOptions = Map.empty\<rparr>,
      Some \<lparr>fileName = None, include' = Some [''src/**/*.ts'', ''test/**/*.ts''], exclude = None,
            compilerOptions = Map.empty\<rparr>]) =
   Some [''src/**/*.ts'', ''src/**/*.ts'', ''test/**/*.ts'']"
  using merge_include_concat[of
     "[\<lparr>fileName = None, include' = Some [''src/**/*.ts''], exclude = None,
            compilerOptions = Map.empty\<rparr>,
       \<lparr>fileName = None, include' = None, exclude = Some [''node_modules''],
            compilerOptions = Map.empty\<rparr>,
       \<lparr>fileName = None, include' = Some [''src/**/*.ts'', ''test/**/*.ts''], exclude = None,
            compilerOptions = Map.empty\<rparr>]"]
  by (simp add: coalesce_def)

text \<open>
  Claim C5.  For two fragments merged from left to right, the merged
  \<open>compilerOptions\<close> holds, for every key of the later fragment, the value of the later
  fragment, and for every other key of the earlier fragment, the value of the earlier
  one, and no other key.  A value is taken whole: options \<open>{x: 1, y: 2}\<close> and \<open>{y: 3}\<close>
  merge to \<open>{x: 1, y: 3}\<close>, and a nested object under the same key is replaced, not
  merged.
\<close>

theorem merge_options_override:
  "compilerOptions (mergeTsconfigOptions [Some A, Some B]) = compilerOptions A ++ compilerOptions B
   \<and> compilerOptions (mergeTsconfigOptions [Some A, Some B]) k =
       (case compilerOptions B k of Some v \<Rightarrow> Some v | None \<Rightarrow> compilerOptions A k)
   \<and> dom (compilerOptions (mergeTsconfigOptions [Some A, Some B])) =
       dom (compilerOptions A) \<union> dom (compilerOptions B)
   \<and> compilerOptions (mergeTsconfigOptions
        [Some (A\<lparr>compilerOptions := [''x'' \<mapsto> JNum 1, ''y'' \<mapsto> JNum 2]\<rparr>),
         Some (B\<lparr>compilerOptions := [''y'' \<mapsto> JNum 3]\<rparr>)]) =
       [''x'' \<mapsto> JNum 1, ''y'' \<mapsto> JNum 3]
   \<and> compilerOptions (mergeTsconfigOptions
        [Some (A\<lparr>compilerOptions := [''paths'' \<mapsto> JObj [(''a'', JNum 1)]]\<rparr>),
         Some (B\<lparr>compilerOptions := [''paths'' \<mapsto> JObj [(''b'', JNum 2)]]\<rparr>)]) =
       [''paths'' \<mapsto> JObj [(''b'', JNum 2)]]"
  by (auto simp add: mergeTsconfigOptions_def map_filter_simps reducer_def initialValue_def
      map_add_def split: option.splits)

theorem merge_options_override_witness:
  "compilerOptions (mergeTsconfigOptions
     [Some \<lparr>fileName = None, include' = None, exclude = None,
            compilerOptions = [''x'' \<mapsto> JNum 1, ''y'' \<mapsto> JNum 2]\<rparr>,
      Some \<lparr>fileName = None, include' = None, exclude = None,
            compilerOptions = [''y'' \<mapsto> JNum 3]\<rparr>]) ''y'' = Some (JNum 3)"
  using merge_options_override[of
     "\<lparr>fileName = None, include' = None, exclude = None,
            compilerOptions = [''x'' \<mapsto> JNum 1, ''y'' \<mapsto> JNum 2]\<rparr>"
     "\<lparr>fileName = None, include' = None, exclude = None,
            compilerOptions = [''y'' \<mapsto> JNum 3]\<rparr>" "''y''"]
  by simp

text \<open>
  Claim C6, as the code has it.  Missing entries are skipped: merging
  \<open>[undefined, A, undefined]\<close> is merging \<open>[A]\<close>, and dropping the missing entries of
  any list does not change the result.  When every entry is missing the result is the
  initial value \<open>{ compilerOptions: {} }\<close>: its options are empty, and it has no
  \<open>include\<close> and no \<open>exclude\<close> field.
\<close>

theorem merge_skips_absent:
  "mergeTsconfigOptions [None, Some A, None] = mergeTsconfigOptions [Some A]
   \<and> mergeTsconfigOptions (filter (\<lambda>x. x \<noteq> None) fs) = mergeTsconfigOptions fs
   \<and> ((\<forall>x \<in> set fs. x = None) \<longrightarrow>
        mergeTsconfigOptions fs =
          \<lparr>fileName = None, include' = None, exclude = None, compilerOptions = Map.empty\<rparr>)"
proof (intro conjI impI)
  show "mergeTsconfigOptions [None, Some A, None] = mergeTsconfigOptions [Some A]"
    by (simp add: mergeTsconfigOptions_def map_filter_simps)
next
  show "mergeTsconfigOptions (filter (\<lambda>x. x \<noteq> None) fs) = mergeTsconfigOptions fs"
    unfolding mergeTsconfigOptions_def by (simp only: map_filter_drop_None)
next
  assume "\<forall>x \<in> set fs. x = None"
  then have "List.map_filter (\<lambda>x. x) fs = []" by (rule map_filter_all_None)
  then show "mergeTsconfigOptions fs =
      \<lparr>fileName = None, include' = None, exclude = None, compilerOptions = Map.empty\<rparr>"
    by (simp add: mergeTsconfigOptions_def initialValue_def)
qed

theorem merge_skips_absent_witness:
  "mergeTsconfigOptions [None, None] =
     \<lparr>fileName = None, include' = None, exclude = None, compilerOptions = Map.empty\<rparr>"
  using merge_skips_absent[of initialValue "[None, None]"] by simp

text \<open>
  With no fragment to merge, \<open>include\<close> and \<open>exclude\<close> of the result are missing;
  they are not empty lists.
\<close>

theorem merge_absent_counterexample:
  "include' (mergeTsconfigOptions [None, None]) = None
   \<and> include' (mergeTsconfigOptions [None, None]) \<noteq> Some []
   \<and> exclude (mergeTsconfigOptions []) \<noteq> Some []"
  by (simp add: mergeTsconfigOptions_def map_filter_simps initialValue_def)

text \<open>
  Claim C7, as the code has it.  Merging the result of a merge again changes nothing
  when the list had a defined fragment; merging the merges of two lists is merging the
  two lists one after the other when one of them has a defined fragment; and
  \<open>merge([merge([A, B]), C])\<close> is \<open>merge([A, B, C])\<close>.  The callback itself is
  associative.
\<close>

theorem merge_remerge_stable:
  "((\<exists>f. Some f \<in> set fs) \<longrightarrow>
      mergeTsconfigOptions [Some (mergeTsconfigOptions fs)] = mergeTsconfigOptions fs)
   \<and> ((\<exists>f. Some f \<in> set (fs @ gs)) \<longrightarrow>
      mergeTsconfigOptions [Some (mergeTsconfigOptions fs), Some (mergeTsconfigOptions gs)] =
      mergeTsconfigOptions (fs @ gs))
   \<and> mergeTsconfigOptions [Some (mergeTsconfigOptions [Some A, Some B]), Some C] =
      mergeTsconfigOptions [Some A, Some B, Some C]
   \<and> reducer (reducer A B) C = reducer A (reducer B C)"
proof (intro conjI impI)
  assume "\<exists>f. Some f \<in> set fs"
  then show "mergeTsconfigOptions [Some (mergeTsconfigOptions fs)] = mergeTsconfigOptions fs"
    using merge_remerge by blast
next
  assume "\<exists>f. Some f \<in> set (fs @ gs)"
  then show "mergeTsconfigOptions [Some (mergeTsconfigOptions fs), Some (mergeTsconfigOptions gs)] =
      mergeTsconfigOptions (fs @ gs)"
    using merge_of_merges by blast
next
  show "mergeTsconfigOptions [Some (mergeTsconfigOptions [Some A, Some B]), Some C] =
      mergeTsconfigOptions [Some A, Some B, Some C]"
    by (simp add: mergeTsconfigOptions_def map_filter_simps reducer_initialValue_left)
next
  show "reducer (reducer A B) C = reducer A (reducer B C)" by (rule reducer_assoc)
qed

theorem merge_remerge_stable_witness:
  "mergeTsconfigOptions
     [Some (mergeTsconfigOptions
        [Some \<lparr>fileName = Some (Some ''tsconfig.json''), include' = Some [''src/**/*.ts''],
               exclude = None, compilerOptions = [''strict'' \<mapsto> JBool True]\<rparr>])] =
   mergeTsconfigOptions
     [Some \<lparr>fileName = Some (Some ''tsconfig.json''), include' = Some [''src/**/*.ts''],
            exclude = None, compilerOptions = [''strict'' \<mapsto> JBool True]\<rparr>]"
  using merge_remerge_stable[of
     "[Some \<lparr>fileName = Some (Some ''tsconfig.json''), include' = Some [''src/**/*.ts''],
            exclude = None, compilerOptions = [''strict'' \<mapsto> JBool True]\<rparr>]"
     "[]" initialValue initialValue initialValue]
  by simp

text \<open>
  The result of merging nothing is not stable: it has no \<open>include\<close>, and merging
  it once more gives the empty list.
\<close>

theorem merge_remerge_counterexample:
  "mergeTsconfigOptions [Some (mergeTsconfigOptions [])] \<noteq> mergeTsconfigOptions []
   \<and> include' (mergeTsconfigOptions [Some (mergeTsconfigOptions [])]) = Some []
   \<and> include' (mergeTsconfigOptions []) = None"
proof -
  have a: "include' (mergeTsconfigOptions [Some (mergeTsconfigOptions [])]) = Some []"
    by (simp add: mergeTsconfigOptions_def map_filter_simps initialValue_def reducer_def
        coalesce_def)
  have b: "include' (mergeTsconfigOptions []) = None"
    by (simp add: mergeTsconfigOptions_def map_filter_simps initialValue_def)
  from a b have "mergeTsconfigOptions [Some (mergeTsconfigOptions [])] \<noteq> mergeTsconfigOptions []"
    by (metis option.distinct(1))
  with a b show ?thesis by simp
qed

section \<open>Merging on the heap: the arguments are left alone\<close>

lemma lookup_append: "p < length h \<Longrightarrow> lookup (h @ ext) p = lookup h p"
  by (simp add: lookup_def nth_append)

lemma lookup_Some_less: "lookup h p = Some ob \<Longrightarrow> p < length h"
  by (simp add: lookup_def split: if_splits)

lemma lookup_new: "lookup (h @ [ob]) (length h) = Some ob"
  by (simp add: lookup_def)

lemma isArray_append: "isArray h p \<Longrightarrow> isArray (h @ ext) p"
  by (auto simp: isArray_def lookup_def nth_append split: if_splits)

lemma isOptions_append: "isOptions h p \<Longrightarrow> isOptions (h @ ext) p"
  by (auto simp: isOptions_def lookup_def nth_append split: if_splits)

lemma arrayAt_append: "isArray h p \<Longrightarrow> arrayAt (h @ ext) (Some p) = arrayAt h (Some p)"
  by (auto simp: isArray_def arrayAt_def lookup_def nth_append split: if_splits)

lemma optionsAt_append: "isOptions h p \<Longrightarrow> optionsAt (h @ ext) p = optionsAt h p"
  by (auto simp: isOptions_def optionsAt_def lookup_def nth_append split: if_splits)

lemma wfFragment_less: "wfFragment h a \<Longrightarrow> a < length h"
  by (auto simp: wfFragment_def lookup_def split: if_splits)

lemma wfFragment_append: "wfFragment h a \<Longrightarrow> wfFragment (h @ ext) a"
  by (auto simp: wfFragment_def lookup_def nth_append isArray_append isOptions_append
      split: if_splits option.splits obj.splits)

lemma fragmentAt_append:
  "wfFragment h a \<Longrightarrow> fragmentAt (h @ ext) a = fragmentAt h a"
  by (auto simp: wfFragment_def fragmentAt_def lookup_def nth_append arrayAt_append
      optionsAt_append split: if_splits option.splits obj.splits)

lemma wfFragment_fragmentAt: "wfFragment h a \<Longrightarrow> \<exists>F. fragmentAt h a = Some F"
  by (auto simp: wfFragment_def fragmentAt_def split: option.splits obj.splits)

lemma arrayAt_lookup: "lookup h p = Some (Array xs) \<Longrightarrow> arrayAt h (Some p) = xs"
  by (simp add: arrayAt_def)

lemma optionsAt_lookup: "lookup h p = Some (Options m) \<Longrightarrow> optionsAt h p = m"
  by (simp add: optionsAt_def)

lemma reducerH_frame:
  "reducerH h p c = Some (r, h') \<Longrightarrow> length h \<le> r \<and> r < length h' \<and> take (length h) h' = h"
  by (auto simp: reducerH_def alloc_def split: option.splits obj.splits)

lemma reduceH_frame:
  "reduceH h acc cs = Some (r, h') \<Longrightarrow>
   (r = acc \<or> length h \<le> r) \<and> (acc < length h \<longrightarrow> r < length h') \<and> take (length h) h' = h"
proof (induction cs arbitrary: h acc)
  case Nil
  then show ?case by simp
next
  case (Cons c cs)
  from Cons.prems obtain acc1 h1 where
    step: "reducerH h acc c = Some (acc1, h1)" and rest: "reduceH h1 acc1 cs = Some (r, h')"
    by (auto split: option.splits)
  from reducerH_frame[OF step] have f1: "length h \<le> acc1" "acc1 < length h1" "take (length h) h1 = h"
    by simp_all
  from Cons.IH[OF rest] have f2: "r = acc1 \<or> length h1 \<le> r" "r < length h'"
      "take (length h1) h' = h1"
    using f1 by simp_all
  have len: "length h \<le> length h1" using f1 by simp
  have "take (length h) h' = take (length h) (take (length h1) h')"
    using len by (simp add: min_def)
  with f2(3) f1(3) have "take (length h) h' = h" by simp
  with f1 f2 len show ?case by auto
qed

lemma fragmentAt_lookup:
  "lookup h a = Some (Fragment f i e c) \<Longrightarrow>
   fragmentAt h a =
     Some \<lparr>fileName = f, include' = map_option (\<lambda>p. arrayAt h (Some p)) i,
           exclude = map_option (\<lambda>p. arrayAt h (Some p)) e,
           compilerOptions = optionsAt h c\<rparr>"
  by (simp add: fragmentAt_def)

lemma arrayAt_append_wf:
  "(\<And>q. x = Some q \<Longrightarrow> isArray h q) \<Longrightarrow> arrayAt (h @ ext) x = arrayAt h x"
  by (cases x) (simp_all add: arrayAt_append, simp add: arrayAt_def)

lemma coalesce_arrayAt:
  "coalesce (map_option (\<lambda>p. arrayAt h (Some p)) x) [] = arrayAt h x"
  by (cases x) (simp_all add: coalesce_def arrayAt_def)

lemma reducerH_refines:
  assumes "wfFragment h p" and "wfFragment h c"
    and "fragmentAt h p = Some P" and "fragmentAt h c = Some C"
  shows "\<exists>r ext. reducerH h p c = Some (r, h @ ext) \<and> wfFragment (h @ ext) r \<and>
           fragmentAt (h @ ext) r = Some (reducer P C)"
proof -
  from assms(1,3) obtain pf pi pe pc where p: "lookup h p = Some (Fragment pf pi pe pc)"
    and P: "P = \<lparr>fileName = pf, include' = map_option (\<lambda>p. arrayAt h (Some p)) pi,
                 exclude = map_option (\<lambda>p. arrayAt h (Some p)) pe,
                 compilerOptions = optionsAt h pc\<rparr>"
    by (auto simp: fragmentAt_def split: option.splits obj.splits)
  from assms(2,4) obtain cf ci ce cc where c: "lookup h c = Some (Fragment cf ci ce cc)"
    and C: "C = \<lparr>fileName = cf, include' = map_option (\<lambda>p. arrayAt h (Some p)) ci,
                 exclude = map_option (\<lambda>p. arrayAt h (Some p)) ce,
                 compilerOptions = optionsAt h cc\<rparr>"
    by (auto simp: fragmentAt_def split: option.splits obj.splits)
  from assms(1) p have wp: "isOptions h pc" "\<And>q. pe = Some q \<Longrightarrow> isArray h q"
    by (auto simp: wfFragment_def)
  from assms(2) c have wc: "isOptions h cc" "\<And>q. ce = Some q \<Longrightarrow> isArray h q"
    by (auto simp: wfFragment_def)
  define inc where "inc = Array (arrayAt h pi @ arrayAt h ci)"
  define exc where "exc = Array (arrayAt h pe @ arrayAt h ce)"
  define co where "co = Options (optionsAt h pc ++ optionsAt h cc)"
  define fr where "fr = Fragment (case cf of None \<Rightarrow> pf | Some v \<Rightarrow> Some v)
               (Some (length h)) (Some (Suc (length h))) (Suc (Suc (length h)))"
  define h4 where "h4 = h @ [inc, exc, co, fr]"
  have pe: "arrayAt (h @ [inc]) pe = arrayAt h pe"
    using wp(2) by (rule arrayAt_append_wf)
  have ce: "arrayAt (h @ [inc]) ce = arrayAt h ce"
    using wc(2) by (rule arrayAt_append_wf)
  have pc: "optionsAt (h @ [inc, exc]) pc = optionsAt h pc"
    using wp(1) by (rule optionsAt_append)
  have cc: "optionsAt (h @ [inc, exc]) cc = optionsAt h cc"
    using wc(1) by (rule optionsAt_append)
  have run: "reducerH h p c = Some (Suc (Suc (Suc (length h))), h4)"
    using pe ce pc cc
    by (simp add: reducerH_def p c alloc_def inc_def[symmetric] exc_def[symmetric]
        co_def[symmetric] fr_def[symmetric] h4_def)
  have l1: "lookup h4 (length h) = Some inc"
    and l2: "lookup h4 (Suc (length h)) = Some exc"
    and l3: "lookup h4 (Suc (Suc (length h))) = Some co"
    and l4: "lookup h4 (Suc (Suc (Suc (length h)))) = Some fr"
    by (simp_all add: h4_def lookup_def nth_append)
  have wf: "wfFragment h4 (Suc (Suc (Suc (length h))))"
    using l1 l2 l3 l4
    by (simp add: wfFragment_def fr_def inc_def exc_def co_def isArray_def isOptions_def)
  have a1: "arrayAt h4 (Some (length h)) = arrayAt h pi @ arrayAt h ci"
    using l1 unfolding inc_def by (rule arrayAt_lookup)
  have a2: "arrayAt h4 (Some (Suc (length h))) = arrayAt h pe @ arrayAt h ce"
    using l2 unfolding exc_def by (rule arrayAt_lookup)
  have a3: "optionsAt h4 (Suc (Suc (length h))) = optionsAt h pc ++ optionsAt h cc"
    using l3 unfolding co_def by (rule optionsAt_lookup)
  have "fragmentAt h4 (Suc (Suc (Suc (length h)))) =
      Some \<lparr>fileName = (case cf of None \<Rightarrow> pf | Some v \<Rightarrow> Some v),
            include' = Some (arrayAt h4 (Some (length h))),
            exclude = Some (arrayAt h4 (Some (Suc (length h)))),
            compilerOptions = optionsAt h4 (Suc (Suc (length h)))\<rparr>"
    using l4 unfolding fr_def by (simp add: fragmentAt_lookup)
  also have "\<dots> = Some (reducer P C)"
    by (simp add: a1 a2 a3 reducer_def P C coalesce_arrayAt split: option.splits)
  finally have "fragmentAt h4 (Suc (Suc (Suc (length h)))) = Some (reducer P C)" .
  with run wf show ?thesis unfolding h4_def by blast
qed

lemma reduceH_refines:
  assumes "wfFragment h acc" and "list_all (wfFragment h) cs"
    and "fragmentAt h acc = Some A"
  shows "\<exists>r ext. reduceH h acc cs = Some (r, h @ ext) \<and> wfFragment (h @ ext) r \<and>
           fragmentAt (h @ ext) r =
             Some (foldl reducer A (map (\<lambda>c. the (fragmentAt h c)) cs))"
  using assms
proof (induction cs arbitrary: h acc A)
  case Nil
  have "reduceH h acc [] = Some (acc, h @ [])" by simp
  with Nil show ?case by (metis append_Nil2 foldl_Nil list.simps(8))
next
  case (Cons c cs)
  from Cons.prems have wc: "wfFragment h c" and wcs: "list_all (wfFragment h) cs" by simp_all
  from wc obtain C where C: "fragmentAt h c = Some C"
    using wfFragment_fragmentAt by blast
  from reducerH_refines[OF Cons.prems(1) wc Cons.prems(3) C] obtain r1 ext1 where
    step: "reducerH h acc c = Some (r1, h @ ext1)" and wf1: "wfFragment (h @ ext1) r1"
    and fr1: "fragmentAt (h @ ext1) r1 = Some (reducer A C)"
    by blast
  have wcs1: "list_all (wfFragment (h @ ext1)) cs"
    using wcs by (simp add: list_all_iff wfFragment_append)
  from Cons.IH[OF wf1 wcs1 fr1] obtain r ext where
    rest: "reduceH (h @ ext1) r1 cs = Some (r, (h @ ext1) @ ext)"
    and wf: "wfFragment ((h @ ext1) @ ext) r"
    and fr: "fragmentAt ((h @ ext1) @ ext) r =
             Some (foldl reducer (reducer A C) (map (\<lambda>c. the (fragmentAt (h @ ext1) c)) cs))"
    by blast
  have same: "map (\<lambda>c. the (fragmentAt (h @ ext1) c)) cs = map (\<lambda>c. the (fragmentAt h c)) cs"
    using wcs by (simp add: list_all_iff fragmentAt_append)
  have "reduceH h acc (c # cs) = Some (r, h @ (ext1 @ ext))"
    using step rest by simp
  moreover have "wfFragment (h @ (ext1 @ ext)) r" using wf by simp
  moreover have "fragmentAt (h @ (ext1 @ ext)) r =
      Some (foldl reducer A (map (\<lambda>c. the (fragmentAt h c)) (c # cs)))"
    using fr same C by simp
  ultimately show ?case by blast
qed


lemma map_filter_wf:
  "list_all (wfRef h) options \<Longrightarrow> list_all (wfFragment h) (List.map_filter (\<lambda>x. x) options)"
  by (induction options) (auto simp: map_filter_simps wfRef_def split: option.splits)

lemma map_filter_fragmentAt:
  "list_all (wfRef h) options \<Longrightarrow>
   map (\<lambda>c. the (fragmentAt h c)) (List.map_filter (\<lambda>x. x) options) =
   List.map_filter (\<lambda>x. x)
     (map (\<lambda>x. case x of None \<Rightarrow> None | Some a \<Rightarrow> fragmentAt h a) options)"
proof (induction options)
  case Nil
  show ?case by (simp add: map_filter_simps)
next
  case (Cons x xs)
  show ?case
  proof (cases x)
    case None
    with Cons show ?thesis by (simp add: map_filter_simps)
  next
    case (Some a)
    with Cons.prems have "wfFragment h a" by (simp add: wfRef_def)
    then obtain F where "fragmentAt h a = Some F" using wfFragment_fragmentAt by blast
    with Cons Some show ?thesis by (simp add: map_filter_simps)
  qed
qed

lemma mergeTsconfigOptionsH_refines:
  assumes "list_all (wfRef h) options"
  shows "\<exists>r ext. mergeTsconfigOptionsH h options = Some (r, h @ ext) \<and> length h \<le> r \<and>
           wfFragment (h @ ext) r \<and>
           fragmentAt (h @ ext) r =
             Some (mergeTsconfigOptions
               (map (\<lambda>x. case x of None \<Rightarrow> None | Some a \<Rightarrow> fragmentAt h a) options))"
proof -
  define ds where "ds = List.map_filter (\<lambda>x. x) options"
  define h2 where "h2 = h @ [Options Map.empty, Fragment None None None (length h)]"
  have run: "mergeTsconfigOptionsH h options = reduceH h2 (Suc (length h)) ds"
    by (simp add: mergeTsconfigOptionsH_def alloc_def ds_def h2_def)
  have l0: "lookup h2 (length h) = Some (Options Map.empty)"
    and l1: "lookup h2 (Suc (length h)) = Some (Fragment None None None (length h))"
    by (simp_all add: h2_def lookup_def nth_append)
  have wfs: "wfFragment h2 (Suc (length h))"
    using l0 l1 by (simp add: wfFragment_def isOptions_def)
  have "optionsAt h2 (length h) = Map.empty" using l0 by (rule optionsAt_lookup)
  then have seed: "fragmentAt h2 (Suc (length h)) = Some initialValue"
    using l1 by (simp add: fragmentAt_lookup initialValue_def)
  have wds: "list_all (wfFragment h) ds"
    unfolding ds_def using assms by (rule map_filter_wf)
  then have wds2: "list_all (wfFragment h2) ds"
    by (simp add: h2_def list_all_iff wfFragment_append)
  from reduceH_refines[OF wfs wds2 seed] obtain r ext where
    red: "reduceH h2 (Suc (length h)) ds = Some (r, h2 @ ext)"
    and wf: "wfFragment (h2 @ ext) r"
    and fr: "fragmentAt (h2 @ ext) r =
             Some (foldl reducer initialValue (map (\<lambda>c. the (fragmentAt h2 c)) ds))"
    by blast
  have "map (\<lambda>c. the (fragmentAt h2 c)) ds = map (\<lambda>c. the (fragmentAt h c)) ds"
    using wds by (simp add: h2_def list_all_iff fragmentAt_append)
  also have "\<dots> = List.map_filter (\<lambda>x. x)
     (map (\<lambda>x. case x of None \<Rightarrow> None | Some a \<Rightarrow> fragmentAt h a) options)"
    unfolding ds_def using assms by (rule map_filter_fragmentAt)
  finally have fr': "fragmentAt (h2 @ ext) r =
      Some (mergeTsconfigOptions
         (map (\<lambda>x. case x of None \<Rightarrow> None | Some a \<Rightarrow> fragmentAt h a) options))"
    using fr by (simp add: mergeTsconfigOptions_def)
  from reduceH_frame[OF red] have "r = Suc (length h) \<or> length h2 \<le> r" by simp
  then have ge: "length h \<le> r" by (auto simp: h2_def)
  have h2ext: "h2 @ ext = h @ ([Options Map.empty, Fragment None None None (length h)] @ ext)"
    by (simp add: h2_def)
  show ?thesis
    using run red wf fr' ge unfolding h2ext by metis
qed

text \<open>
  Claim C9.  Let every defined entry of the argument list be the address of a
  well-formed fragment.  Then \<open>mergeTsconfigOptions\<close> returns, every object of the heap
  it was called on is still what it was, every argument stands for the same
  \<open>include\<close>, \<open>exclude\<close> and \<open>compilerOptions\<close> as before, and the result is a newly
  allocated object, so it is none of the arguments.
\<close>

theorem merge_leaves_inputs_unchanged:
  assumes "list_all (wfRef h) options"
  shows "\<exists>res h'. mergeTsconfigOptionsH h options = Some (res, h') \<and>
           take (length h) h' = h \<and> length h \<le> res \<and> res < length h' \<and>
           (\<forall>a. Some a \<in> set options \<longrightarrow> a \<noteq> res \<and> fragmentAt h' a = fragmentAt h a)"
proof -
  from mergeTsconfigOptionsH_refines[OF assms] obtain r ext where
    run: "mergeTsconfigOptionsH h options = Some (r, h @ ext)" and ge: "length h \<le> r"
    and wf: "wfFragment (h @ ext) r"
    by blast
  have "a \<noteq> r \<and> fragmentAt (h @ ext) a = fragmentAt h a" if "Some a \<in> set options" for a
  proof -
    from assms that have "wfFragment h a"
      by (auto simp: list_all_iff wfRef_def)
    then show ?thesis
      using ge wfFragment_less[of h a] by (simp add: fragmentAt_append)
  qed
  moreover have "r < length (h @ ext)" using wf by (rule wfFragment_less)
  ultimately show ?thesis using run ge by auto
qed

theorem merge_leaves_inputs_unchanged_witness:
  "\<exists>res h'. mergeTsconfigOptionsH
       [Array [''src/**/*.ts''], Options [''strict'' \<mapsto> JBool True], Fragment None (Some 0) None 1]
       [None, Some 2, None] = Some (res, h') \<and>
     take 3 h' =
       [Array [''src/**/*.ts''], Options [''strict'' \<mapsto> JBool True], Fragment None (Some 0) None 1] \<and>
     res \<noteq> 2 \<and>
     fragmentAt h' 2 =
       Some \<lparr>fileName = None, include' = Some [''src/**/*.ts''], exclude = None,
             compilerOptions = [''strict'' \<mapsto> JBool True]\<rparr>"
proof -
  let ?h = "[Array [''src/**/*.ts''], Options [''strict'' \<mapsto> JBool True],
             Fragment None (Some 0) None 1]"
  have wf: "list_all (wfRef ?h) [None, Some 2, None]"
    by (simp add: wfRef_def wfFragment_def lookup_def isArray_def isOptions_def)
  have fr: "fragmentAt ?h 2 =
       Some \<lparr>fileName = None, include' = Some [''src/**/*.ts''], exclude = None,
             compilerOptions = [''strict'' \<mapsto> JBool True]\<rparr>"
    by (simp add: fragmentAt_def lookup_def arrayAt_def optionsAt_def)
  from merge_leaves_inputs_unchanged[OF wf] obtain res h' where
    "mergeTsconfigOptionsH ?h [None, Some 2, None] = Some (res, h')"
    "take (length ?h) h' = ?h" "2 \<noteq> res" "fragmentAt h' 2 = fragmentAt ?h 2"
    by auto
  with fr show ?thesis by (auto simp: numeral_3_eq_3)
qed

section \<open>The tasks of the constructor\<close>

lemma startsWith_iff: "startsWith s p \<longleftrightarrow> (\<exists>t. s = p @ t)"
proof
  assume "startsWith s p"
  then have "s = p @ drop (length p) s" by (rule startsWith_split)
  then show "\<exists>t. s = p @ t" ..
next
  assume "\<exists>t. s = p @ t"
  then show "startsWith s p" by auto
qed

lemma buildTask_after_220:
  "steps (buildTask (lines_214_220 options this)) =
     steps (buildTask this) @
     (if compileBeforeTest_of options
      then [Spawn (name (compileTask this)), Spawn (name (testTask this))]
      else [Spawn (name (testTask this)), Spawn (name (compileTask this))])"
  by (simp add: lines_214_220_def Task_spawn_def)

lemma buildTask_after_234:
  "steps (buildTask (lines_214_234 options this)) =
     steps (buildTask this) @
     (if compileBeforeTest_of options
      then [Spawn (name (compileTask this)), Spawn (name (testTask this))]
      else [Spawn (name (testTask this)), Spawn (name (compileTask this))]) @
     (if package_of options then [Spawn ''package''] else [])"
  by (simp add: lines_214_234_def lines_222_234_def lines_214_220_def Let_def Task_spawn_def
      Task_exec_def newPackageTask_def)

text \<open>
  Claim C3.  Lines 214-234 of the constructor append to the build task a spawn of
  \<open>compile\<close> and then a spawn of \<open>test\<close> when \<open>compileBeforeTest\<close> holds, a spawn of
  \<open>test\<close> and then a spawn of \<open>compile\<close> when it does not, and after these, in both
  orders, a spawn of \<open>package\<close> when packaging is on.  This holds for both values of
  each flag, and packaging is on when the option is not given.  It is the state of the
  build task after line 234.
\<close>

theorem build_spawn_order:
  "steps (buildTask (lines_214_234 options this)) =
     steps (buildTask this) @
     (if compileBeforeTest_of options
      then [Spawn (name (compileTask this)), Spawn (name (testTask this))]
      else [Spawn (name (testTask this)), Spawn (name (compileTask this))]) @
     (if package_of options then [Spawn ''package''] else [])
   \<and> steps (buildTask (lines_214_234
        (options\<lparr>compileBeforeTest := Some compileFirst, package := Some packagingEnabled\<rparr>)
        this)) =
     steps (buildTask this) @
     (if compileFirst
      then [Spawn (name (compileTask this)), Spawn (name (testTask this))]
      else [Spawn (name (testTask this)), Spawn (name (compileTask this))]) @
     (if packagingEnabled then [Spawn ''package''] else [])
   \<and> package_of (options\<lparr>package := None\<rparr>) = True
   \<and> steps (buildTask (lines_214_234
        (options\<lparr>compileBeforeTest := Some True, package := Some False\<rparr>)
        (this\<lparr>buildTask := \<lparr>name = ''build'', steps = []\<rparr>,
               compileTask := \<lparr>name = ''compile'', steps = cs\<rparr>,
               testTask := \<lparr>name = ''test'', steps = ts\<rparr>\<rparr>))) =
       [Spawn ''compile'', Spawn ''test'']
   \<and> steps (buildTask (lines_214_234
        (options\<lparr>compileBeforeTest := Some False, package := Some True\<rparr>)
        (this\<lparr>buildTask := \<lparr>name = ''build'', steps = []\<rparr>,
               compileTask := \<lparr>name = ''compile'', steps = cs\<rparr>,
               testTask := \<lparr>name = ''test'', steps = ts\<rparr>\<rparr>))) =
       [Spawn ''test'', Spawn ''compile'', Spawn ''package'']"
  by (simp add: buildTask_after_234 compileBeforeTest_of_def package_of_def coalesce_def)

theorem build_spawn_order_witness:
  "steps (buildTask (lines_214_234
      \<lparr>libdir = None, srcdir = None, testdir = None, compileBeforeTest = None, package = None\<rparr>
      \<lparr>compileTask = \<lparr>name = ''compile'', steps = [Exec ''tsc'']\<rparr>,
       testTask = \<lparr>name = ''test'', steps = [Exec ''jest'']\<rparr>,
       buildTask = \<lparr>name = ''build'', steps = []\<rparr>,
       testCompileTask = \<lparr>name = ''test:compile'', steps = []\<rparr>,
       packageTask = None, jest = True, packageManager = ''yarn''\<rparr>)) =
   [Spawn ''test'', Spawn ''compile'', Spawn ''package'']"
  using build_spawn_order[of
      "\<lparr>libdir = None, srcdir = None, testdir = None, compileBeforeTest = None, package = None\<rparr>"
      "\<lparr>compileTask = \<lparr>name = ''compile'', steps = [Exec ''tsc'']\<rparr>,
       testTask = \<lparr>name = ''test'', steps = [Exec ''jest'']\<rparr>,
       buildTask = \<lparr>name = ''build'', steps = []\<rparr>,
       testCompileTask = \<lparr>name = ''test:compile'', steps = []\<rparr>,
       packageTask = None, jest = True, packageManager = ''yarn''\<rparr>"]
  by (simp add: compileBeforeTest_of_def compiledTests_def package_of_def coalesce_def
      testdir_of_def srcdir_of_def posix_sep_def)

text \<open>
  Claim C8, as the code has it.  The cleanup is put in by the block of lines 352-383,
  which runs when jest is set up and the tests are not compiled, that is, when the
  test directory is not under the source directory.  There, when the tests run before
  the compilation, the command that removes the output directory (\<open>lib\<close> unless the
  option \<open>libdir\<close> names another) stands in front of every step the test task has when
  control reaches line 378: a test task with the step \<open>jest\<close> has \<open>rm -fr lib/\<close> and
  then \<open>jest\<close> after the block.  When the compilation runs first, the block leaves the
  test task as it is; and when the tests are compiled (the test directory is under the
  source directory) or jest is not set up, the block does nothing at all.
\<close>

theorem cleanup_prepended:
  "(jest this \<and> \<not> compiledTests options \<and> \<not> compileBeforeTest_of options \<longrightarrow>
      steps (testTask (lines_352_383 options jestCalls this)) =
        Exec (''rm -fr '' @ (case libdir options of None \<Rightarrow> ''lib'' | Some d \<Rightarrow> d) @ ''/'') #
        steps (testTask (fst (jestCalls this))))
   \<and> (jest this \<and> \<not> compiledTests options \<and> compileBeforeTest_of options \<longrightarrow>
      testTask (lines_352_383 options jestCalls this) = testTask (fst (jestCalls this)))
   \<and> (\<not> jest this \<or> compiledTests options \<longrightarrow>
      lines_352_383 options jestCalls this = this)"
  by (auto simp add: lines_352_383_def lines_375_382_def Let_def Task_prependExec_def
      Task_exec_def libdir_of_def coalesce_def split: prod.splits option.splits)

text \<open>
  With the default options the test directory is \<open>test\<close>, outside \<open>src\<close>, and the tests
  run first: the step \<open>jest\<close> gets \<open>rm -fr lib/\<close> in front of it.
\<close>

theorem cleanup_prepended_witness:
  "steps (testTask (lines_352_383
      \<lparr>libdir = None, srcdir = None, testdir = None, compileBeforeTest = None, package = None\<rparr>
      (\<lambda>this. (this, ''tsconfig.jest.json''))
      \<lparr>compileTask = \<lparr>name = ''compile'', steps = [Exec ''tsc'']\<rparr>,
       testTask = \<lparr>name = ''test'', steps = [Exec ''jest'']\<rparr>,
       buildTask = \<lparr>name = ''build'', steps = []\<rparr>,
       testCompileTask = \<lparr>name = ''test:compile'', steps = []\<rparr>,
       packageTask = None, jest = True, packageManager = ''yarn''\<rparr>)) =
   [Exec ''rm -fr lib/'', Exec ''jest'']"
proof -
  let ?o = "\<lparr>libdir = None, srcdir = None, testdir = None, compileBeforeTest = None,
             package = None\<rparr>"
  have 1: "\<not> compiledTests ?o"
    by (simp add: compiledTests_def testdir_of_def srcdir_of_def coalesce_def posix_sep_def)
  then have 2: "\<not> compileBeforeTest_of ?o"
    by (simp add: compileBeforeTest_of_def coalesce_def)
  show ?thesis
    using 1 2 cleanup_prepended[of
        "\<lparr>compileTask = \<lparr>name = ''compile'', steps = [Exec ''tsc'']\<rparr>,
       testTask = \<lparr>name = ''test'', steps = [Exec ''jest'']\<rparr>,
       buildTask = \<lparr>name = ''build'', steps = []\<rparr>,
       testCompileTask = \<lparr>name = ''test:compile'', steps = []\<rparr>,
       packageTask = None, jest = True, packageManager = ''yarn''\<rparr>"
        ?o "\<lambda>this. (this, ''tsconfig.jest.json'')"]
    by simp
qed

text \<open>
  In the colocated layout, with the test directory \<open>src/test\<close> under \<open>src\<close> so that
  the tests are compiled into the output directory, and with the tests set to run
  before the compilation, no cleanup is put in: the test task keeps the one step
  \<open>jest\<close>.
\<close>

theorem cleanup_colocated_counterexample:
  "compiledTests
      \<lparr>libdir = None, srcdir = None, testdir = Some ''src/test'',
       compileBeforeTest = Some False, package = None\<rparr>
   \<and> \<not> compileBeforeTest_of
      \<lparr>libdir = None, srcdir = None, testdir = Some ''src/test'',
       compileBeforeTest = Some False, package = None\<rparr>
   \<and> steps (testTask (lines_352_383
      \<lparr>libdir = None, srcdir = None, testdir = Some ''src/test'',
       compileBeforeTest = Some False, package = None\<rparr>
      (\<lambda>this. (this, ''tsconfig.jest.json''))
      \<lparr>compileTask = \<lparr>name = ''compile'', steps = [Exec ''tsc'']\<rparr>,
       testTask = \<lparr>name = ''test'', steps = [Exec ''jest'']\<rparr>,
       buildTask = \<lparr>name = ''build'', steps = []\<rparr>,
       testCompileTask = \<lparr>name = ''test:compile'', steps = []\<rparr>,
       packageTask = None, jest = True, packageManager = ''yarn''\<rparr>)) =
     [Exec ''jest'']"
  by (simp add: lines_352_383_def compiledTests_def compileBeforeTest_of_def testdir_of_def
      srcdir_of_def coalesce_def posix_sep_def)

text \<open>
  Claim C10.  When the option \<open>compileBeforeTest\<close> is not given, the constructor
  compiles first exactly when the test directory is the source directory, a slash and
  some rest, and lines 214-220 spawn in that order.  A test directory equal to the
  source directory, and \<open>srcfoo\<close> beside the source directory \<open>src\<close>, run the tests
  first; \<open>src/test\<close> compiles first.
\<close>

theorem default_compile_first:
  assumes "compileBeforeTest options = None"
  shows "(compileBeforeTest_of options \<longleftrightarrow>
            (\<exists>rest. testdir_of options = srcdir_of options @ ''/'' @ rest))
     \<and> steps (buildTask (lines_214_220 options this)) =
         steps (buildTask this) @
         (if \<exists>rest. testdir_of options = srcdir_of options @ ''/'' @ rest
          then [Spawn (name (compileTask this)), Spawn (name (testTask this))]
          else [Spawn (name (testTask this)), Spawn (name (compileTask this))])
     \<and> \<not> compileBeforeTest_of (options\<lparr>srcdir := Some d, testdir := Some d\<rparr>)
     \<and> \<not> compileBeforeTest_of (options\<lparr>srcdir := Some ''src'', testdir := Some ''srcfoo''\<rparr>)
     \<and> compileBeforeTest_of (options\<lparr>srcdir := Some ''src'', testdir := Some ''src/test''\<rparr>)
     \<and> srcdir_of (options\<lparr>srcdir := None\<rparr>) = ''src''
     \<and> testdir_of (options\<lparr>testdir := None\<rparr>) = ''test''
     \<and> srcdir_of (options\<lparr>srcdir := Some d\<rparr>) = d
     \<and> testdir_of (options\<lparr>testdir := Some d\<rparr>) = d"
proof -
  have iff: "compileBeforeTest_of options \<longleftrightarrow>
           (\<exists>rest. testdir_of options = srcdir_of options @ ''/'' @ rest)"
    if "compileBeforeTest options = None" for options
    using that startsWith_iff[of "testdir_of options" "srcdir_of options @ ''/''"]
    by (simp add: compileBeforeTest_of_def compiledTests_def coalesce_def posix_sep_def
        del: startsWith.simps)
  have 1: "compileBeforeTest_of options \<longleftrightarrow>
           (\<exists>rest. testdir_of options = srcdir_of options @ ''/'' @ rest)"
    using assms by (rule iff)
  then have 2: "steps (buildTask (lines_214_220 options this)) =
     steps (buildTask this) @
     (if \<exists>rest. testdir_of options = srcdir_of options @ ''/'' @ rest
      then [Spawn (name (compileTask this)), Spawn (name (testTask this))]
      else [Spawn (name (testTask this)), Spawn (name (compileTask this))])"
    by (simp only: buildTask_after_220)
  have 3: "\<not> compileBeforeTest_of (options\<lparr>srcdir := Some d, testdir := Some d\<rparr>)"
    using assms iff[of "options\<lparr>srcdir := Some d, testdir := Some d\<rparr>"]
    by (simp add: testdir_of_def srcdir_of_def coalesce_def)
  have 4: "\<not> compileBeforeTest_of (options\<lparr>srcdir := Some ''src'', testdir := Some ''srcfoo''\<rparr>)"
    using assms iff[of "options\<lparr>srcdir := Some ''src'', testdir := Some ''srcfoo''\<rparr>"]
    by (simp add: testdir_of_def srcdir_of_def coalesce_def)
  have 5: "compileBeforeTest_of (options\<lparr>srcdir := Some ''src'', testdir := Some ''src/test''\<rparr>)"
    using assms iff[of "options\<lparr>srcdir := Some ''src'', testdir := Some ''src/test''\<rparr>"]
    by (simp add: testdir_of_def srcdir_of_def coalesce_def)
  have 6: "srcdir_of (options\<lparr>srcdir := None\<rparr>) = ''src''"
      "testdir_of (options\<lparr>testdir := None\<rparr>) = ''test''"
      "srcdir_of (options\<lparr>srcdir := Some d\<rparr>) = d"
      "testdir_of (options\<lparr>testdir := Some d\<rparr>) = d"
    by (simp_all add: testdir_of_def srcdir_of_def coalesce_def)
  from 1 2 3 4 5 6 show ?thesis by blast
qed

theorem default_compile_first_witness:
  "steps (buildTask (lines_214_220
      \<lparr>libdir = None, srcdir = Some ''src'', testdir = Some ''src/__tests__'',
       compileBeforeTest = None, package = Some False\<rparr>
      \<lparr>compileTask = \<lparr>name = ''compile'', steps = [Exec ''tsc'']\<rparr>,
       testTask = \<lparr>name = ''test'', steps = [Exec ''jest'']\<rparr>,
       buildTask = \<lparr>name = ''build'', steps = []\<rparr>,
       testCompileTask = \<lparr>name = ''test:compile'', steps = []\<rparr>,
       packageTask = None, jest = True, packageManager = ''yarn''\<rparr>)) =
   [Spawn ''compile'', Spawn ''test'']
   \<and> compileBeforeTest_of
      \<lparr>libdir = None, srcdir = Some ''src'', testdir = Some ''src/__tests__'',
       compileBeforeTest = None, package = Some False\<rparr>"
proof -
  let ?o = "\<lparr>libdir = None, srcdir = Some ''src'', testdir = Some ''src/__tests__'',
       compileBeforeTest = None, package = Some False\<rparr>"
  have a: "compileBeforeTest ?o = None" by simp
  have b: "\<exists>rest. testdir_of ?o = srcdir_of ?o @ ''/'' @ rest"
    by (simp add: testdir_of_def srcdir_of_def coalesce_def)
  show ?thesis
    using default_compile_first[OF a, of
      "\<lparr>compileTask = \<lparr>name = ''compile'', steps = [Exec ''tsc'']\<rparr>,
       testTask = \<lparr>name = ''test'', steps = [Exec ''jest'']\<rparr>,
       buildTask = \<lparr>name = ''build'', steps = []\<rparr>,
       testCompileTask = \<lparr>name = ''test:compile'', steps = []\<rparr>,
       packageTask = None, jest = True, packageManager = ''yarn''\<rparr>"] b
    by simp
qed

end
